theory Spec2Isabelle
  imports Main "HOL-Library.Sublist"
begin

unbundle bit_operations_syntax

section \<open>Python values used by the two modules\<close>

text \<open>
  Byte strings and text are both lists of \<^typ>\<open>char\<close>. For \<open>bytes\<close> every
  character is one byte; for text the characters are code points below 256, which covers
  the ASCII labels, cipher names and header lines the code handles. Python's unbounded
  integers are \<^typ>\<open>int\<close>.
\<close>

type_synonym bytes = string

datatype error =
    KeyError string
  | IndexError
  | ValueError string
  | TypeError string
  | StructError
  | WinRMError string
  | ContextError string

definition TAB :: char where "TAB = CHR 0x09"
definition LF :: char where "LF = CHR 0x0A"
definition CR :: char where "CR = CHR 0x0D"
definition QUOTE :: char where "QUOTE = CHR 0x27"

definition CRLF :: string where "CRLF = [CR, LF]"

subsection \<open>\<open>str(int)\<close> and \<open>'%d' % int\<close>\<close>

definition digit_char :: "nat \<Rightarrow> char" where
  "digit_char d = ''0123456789'' ! (d mod 10)"

function str_nat :: "nat \<Rightarrow> string" where
  "str_nat n = (if n < 10 then [digit_char n] else str_nat (n div 10) @ [digit_char (n mod 10)])"
  by pat_completeness auto
termination
  by (relation "measure (\<lambda>n. n)") auto

declare str_nat.simps [simp del]

definition str_int :: "int \<Rightarrow> string" where
  "str_int i = (if i < 0 then CHR ''-'' # str_nat (nat (- i)) else str_nat (nat i))"

subsection \<open>\<open>sep.join(xs)\<close>\<close>

fun join :: "string \<Rightarrow> string list \<Rightarrow> string" where
  "join sep [] = []"
| "join sep [x] = x"
| "join sep (x # y # ys) = x @ sep @ join sep (y # ys)"

subsection \<open>\<open>s.split(sep)\<close> and \<open>s.replace(old, new)\<close>\<close>

text \<open>
  \<open>split_scan sep cur rest\<close> is the left-to-right scan of \<open>split\<close>: \<open>cur\<close> is the
  part collected since the last separator. Every call site of the sources passes a
  non-empty literal separator (Python raises \<open>ValueError\<close> on an empty one); with an
  empty separator the scan below never matches.
\<close>

function split_scan :: "string \<Rightarrow> string \<Rightarrow> string \<Rightarrow> string list" where
  "split_scan sep cur [] = [cur]"
| "split_scan sep cur (x # xs) =
     (if sep \<noteq> [] \<and> prefix sep (x # xs)
      then cur # split_scan sep [] (drop (length sep) (x # xs))
      else split_scan sep (cur @ [x]) xs)"
  by pat_completeness auto
termination
  by (relation "measure (\<lambda>(sep, cur, rest). length rest)") (auto simp: neq_Nil_conv)

definition split :: "string \<Rightarrow> string \<Rightarrow> string list" where
  "split s sep = split_scan sep [] s"

function replace_scan :: "string \<Rightarrow> string \<Rightarrow> string \<Rightarrow> string" where
  "replace_scan old new [] = []"
| "replace_scan old new (x # xs) =
     (if old \<noteq> [] \<and> prefix old (x # xs)
      then new @ replace_scan old new (drop (length old) (x # xs))
      else x # replace_scan old new xs)"
  by pat_completeness auto
termination
  by (relation "measure (\<lambda>(old, new, rest). length rest)") (auto simp: neq_Nil_conv)

definition replace :: "string \<Rightarrow> string \<Rightarrow> string \<Rightarrow> string" where
  "replace s old new = replace_scan old new s"

subsection \<open>\<open>s.strip()\<close>\<close>

definition bytes_space :: "char \<Rightarrow> bool" where
  \<comment> \<open>the ASCII whitespace of \<open>bytes.strip()\<close> and of \<open>int(bytes)\<close>\<close>
  "bytes_space c = (c \<in> set [CHR 0x09, CHR 0x0A, CHR 0x0B, CHR 0x0C, CHR 0x0D, CHR 0x20])"

definition text_space :: "char \<Rightarrow> bool" where
  \<comment> \<open>the code points below 256 for which \<open>str.isspace()\<close> holds\<close>
  "text_space c = (c \<in> set [CHR 0x09, CHR 0x0A, CHR 0x0B, CHR 0x0C, CHR 0x0D, CHR 0x1C,
                              CHR 0x1D, CHR 0x1E, CHR 0x1F, CHR 0x20, CHR 0x85, CHR 0xA0])"

definition strip_with :: "(char \<Rightarrow> bool) \<Rightarrow> string \<Rightarrow> string" where
  "strip_with ws s = rev (dropWhile ws (rev (dropWhile ws s)))"

definition strip_bytes :: "bytes \<Rightarrow> bytes" where
  "strip_bytes s = strip_with bytes_space s"

definition strip_text :: "string \<Rightarrow> string" where
  "strip_text s = strip_with text_space s"

section \<open>dotnet.py: object metadata\<close>

datatype ps_type = PSInt | PSUInt | PSInt64 | PSUInt64 | PSByte | PSSByte | PSInt16 | PSUInt16

record PSPropertyInfo =
  name :: "string option"
  clixml_name :: "string option"
  optional :: bool
  ps_type :: "ps_type option"

record PSObjectMeta =
  adapted_properties :: "PSPropertyInfo list"
  extended_properties :: "PSPropertyInfo list"
  to_string :: "string option"
  type_names :: "string list"

record PSEnumObjectMeta = PSObjectMeta +
  enum_type :: ps_type

definition PSObjectMeta_init :: PSObjectMeta where
  "PSObjectMeta_init =
     \<lparr>adapted_properties = [], extended_properties = [], to_string = None, type_names = []\<rparr>"

definition PSEnumObjectMeta_init :: PSEnumObjectMeta where
  "PSEnumObjectMeta_init =
     \<lparr>adapted_properties = [], extended_properties = [], to_string = None, type_names = [],
      enum_type = PSInt\<rparr>"

text \<open>
  A typed value is the value of the built-in base type together with the attribute
  \<open>psobject\<close> that \<open>PSObject.__init__\<close> sets. \<open>PSString\<close>, \<open>PSInt\<close> and the
  other subclasses whose built-in base (\<open>str\<close>, \<open>int\<close>, \<open>float\<close>, \<open>bytes\<close>)
  defines no \<open>__init__\<close> of its own are constructed through \<open>PSObject.__init__\<close>.
\<close>

record 'v PSObject =
  base_value :: 'v
  psobject :: PSObjectMeta

definition PSObject_init :: "'v \<Rightarrow> 'v PSObject" where
  "PSObject_init v = \<lparr>base_value = v, psobject = PSObjectMeta_init\<rparr>"

record PSEnumBase =
  enum_int :: int
  enum_psobject :: PSEnumObjectMeta

definition PSEnumBase_init :: "int \<Rightarrow> string \<Rightarrow> ps_type \<Rightarrow> PSEnumBase" where
  "PSEnumBase_init v type_name base_type =
     \<lparr>enum_int = v,
      enum_psobject = PSEnumObjectMeta_init
        \<lparr>type_names := [type_name, ''System.Enum'', ''System.ValueType'', ''System.Object''],
         enum_type := base_type\<rparr>\<rparr>"

section \<open>dotnet.py: the enum codec\<close>

text \<open>
  The class attributes of a subclass of \<open>PSEnumBase\<close>. \<open>ENUM_MAP\<close> is a dict, kept as
  the list of its items in insertion order; \<open>map_of\<close> is the lookup. The keys of a dict
  are distinct; no theorem below depends on it.
\<close>

record enum_class =
  ENUM_MAP :: "(string \<times> int) list"
  IS_FLAGS :: bool

datatype py_value = Text string | Integer int

definition keys :: "('k \<times> 'v) list \<Rightarrow> 'k list" where
  "keys items = map fst items"

definition invalid_flag_msg :: "string \<Rightarrow> string list \<Rightarrow> string" where
  "invalid_flag_msg label ks =
     ''Invalid enum flag '' @ [QUOTE] @ label @ [QUOTE] @ '', valid flags: '' @ join '', '' ks"

definition invalid_string_msg :: "string \<Rightarrow> string list \<Rightarrow> string" where
  "invalid_string_msg v ks =
     ''Invalid enum string '' @ [QUOTE] @ v @ [QUOTE] @ '', valid strings: '' @ join '', '' ks"

text \<open>The \<open>for label in value.split(',')\<close> loop of \<open>__new__\<close>.\<close>

fun new_flags_loop :: "enum_class \<Rightarrow> string list \<Rightarrow> int \<Rightarrow> error + int" where
  "new_flags_loop cls [] enum_value = Inr enum_value"
| "new_flags_loop cls (label # labels) enum_value =
     (let label = strip_text label in
      case map_of (ENUM_MAP cls) label of
        None \<Rightarrow> Inl (ValueError (invalid_flag_msg label (keys (ENUM_MAP cls))))
      | Some v \<Rightarrow> new_flags_loop cls labels (enum_value OR v))"

fun PSEnumBase_new :: "enum_class \<Rightarrow> py_value \<Rightarrow> error + int" where
  "PSEnumBase_new cls (Integer v) = Inr v"
| "PSEnumBase_new cls (Text v) =
     (if IS_FLAGS cls then new_flags_loop cls (split v '','') 0
      else case map_of (ENUM_MAP cls) v of
             None \<Rightarrow> Inl (ValueError (invalid_string_msg v (keys (ENUM_MAP cls))))
           | Some enum_value \<Rightarrow> Inr enum_value)"

text \<open>
  \<open>dict([(v, k) for k, v in self.ENUM_MAP.items()])\<close>: a later item overwrites an
  earlier one with the same value, so the lookup finds the last label of a value.
\<close>

definition inverted :: "(string \<times> int) list \<Rightarrow> (int \<times> string) list" where
  "inverted items = rev (map (\<lambda>(k, v). (v, k)) items)"

definition enum_map :: "enum_class \<Rightarrow> int \<Rightarrow> string option" where
  "enum_map cls = map_of (inverted (ENUM_MAP cls))"

definition sorted_flags :: "enum_class \<Rightarrow> int list" where
  \<comment> \<open>\<open>sorted([v for v in enum_map.keys() if v != 0], reverse=True)\<close>\<close>
  "sorted_flags cls = rev (sort (remdups (filter (\<lambda>v. v \<noteq> 0) (map fst (inverted (ENUM_MAP cls))))))"

text \<open>The \<open>for v in sorted(...)\<close> loop of \<open>__str__\<close>; \<open>enum_map[v]\<close> raises on a missing key.\<close>

fun str_flags_loop ::
  "(int \<Rightarrow> string option) \<Rightarrow> int list \<Rightarrow> string list \<Rightarrow> int \<Rightarrow> error + (string list \<times> int)" where
  "str_flags_loop em [] flags_set enum_value = Inr (flags_set, enum_value)"
| "str_flags_loop em (v # vs) flags_set enum_value =
     (if enum_value AND v = v
      then (case em v of
              None \<Rightarrow> Inl (KeyError (str_int v))
            | Some l \<Rightarrow> str_flags_loop em vs (flags_set @ [l]) (enum_value AND NOT v))
      else str_flags_loop em vs flags_set enum_value)"

definition PSEnumBase_str :: "enum_class \<Rightarrow> int \<Rightarrow> error + string" where
  "PSEnumBase_str cls self =
     (if \<not> IS_FLAGS cls then
        Inr (case enum_map cls self of Some l \<Rightarrow> l | None \<Rightarrow> str_int self)
      else case enum_map cls self of
        Some l \<Rightarrow> Inr l
      | None \<Rightarrow>
          (case str_flags_loop (enum_map cls) (sorted_flags cls) [] self of
             Inl e \<Rightarrow> Inl e
           | Inr (flags_set, enum_value) \<Rightarrow>
               (let flags_set = (if enum_value \<noteq> 0 then flags_set @ [str_int enum_value]
                                 else flags_set)
                in Inr (join '', '' (if flags_set \<noteq> [] then flags_set else [str_int self])))))"

definition FileAccess :: enum_class where
  "FileAccess = \<lparr>ENUM_MAP = [(''None'', 0), (''Read'', 1), (''Write'', 2), (''Execute'', 4)],
                 IS_FLAGS = True\<rparr>"

subsection \<open>The decoding rule in the words of the specification\<close>

text \<open>
  \<open>greedy\<close> walks the candidates (value and label) in the order given, emits the label
  of every candidate whose bits are all contained in the remaining value and clears those
  bits; it returns the emitted labels and the residual.
\<close>

fun greedy :: "(int \<times> string) list \<Rightarrow> int \<Rightarrow> string list \<times> int" where
  "greedy [] remaining = ([], remaining)"
| "greedy ((c, l) # cs) remaining =
     (if remaining AND c = c
      then (case greedy cs (remaining AND NOT c) of (ls, residual) \<Rightarrow> (l # ls, residual))
      else greedy cs remaining)"

definition labelled :: "(int \<Rightarrow> string option) \<Rightarrow> int list \<Rightarrow> (int \<times> string) list" where
  "labelled em vs = concat (map (\<lambda>v. case em v of Some l \<Rightarrow> [(v, l)] | None \<Rightarrow> []) vs)"

definition candidates :: "enum_class \<Rightarrow> (int \<times> string) list" where
  "candidates cls = labelled (enum_map cls) (sorted_flags cls)"

definition decode_spec :: "enum_class \<Rightarrow> int \<Rightarrow> string" where
  "decode_spec cls v =
     (if \<not> IS_FLAGS cls then (case enum_map cls v of Some l \<Rightarrow> l | None \<Rightarrow> str_int v)
      else case enum_map cls v of
        Some l \<Rightarrow> l
      | None \<Rightarrow>
          (case greedy (candidates cls) v of
             (labels, residual) \<Rightarrow>
               (let tokens = labels @ (if residual \<noteq> 0 then [str_int residual] else [])
                in if tokens = [] then str_int v else join '', '' tokens)))"

text \<open>The tokens of a flags string: split on commas, each token stripped.\<close>

definition flag_tokens :: "string \<Rightarrow> string list" where
  "flag_tokens v = map strip_text (split v '','')"

section \<open>dotnet.py: \<open>PSGuid\<close>\<close>

text \<open>
  A \<open>PSGuid\<close> is the 128-bit value of the \<open>UUID\<close> and the instance \<open>__dict__\<close>.
  \<open>UUID.__setattr__\<close> belongs to the standard library; it is the parameter
  \<open>super_setattr\<close> of \<open>PSGuid_setattr\<close>. \<open>UUID_setattr\<close> is the library's
  guard, which raises \<open>TypeError\<close> on every assignment.
\<close>

record 'a PSGuid =
  uuid_int :: int
  dict :: "string \<Rightarrow> 'a option"

definition PSGuid_setattr ::
  "('a PSGuid \<Rightarrow> string \<Rightarrow> 'a \<Rightarrow> error + 'a PSGuid) \<Rightarrow> 'a PSGuid \<Rightarrow> string \<Rightarrow> 'a
     \<Rightarrow> error + 'a PSGuid" where
  "PSGuid_setattr super_setattr self attr v =
     (if attr = ''psobject'' then Inr (self\<lparr>dict := (dict self)(''psobject'' \<mapsto> v)\<rparr>)
      else super_setattr self attr v)"

definition UUID_setattr :: "'a PSGuid \<Rightarrow> string \<Rightarrow> 'a \<Rightarrow> error + 'a PSGuid" where
  "UUID_setattr self attr v = Inl (TypeError ''UUID objects are immutable'')"

definition PSGuid_getattr :: "'a PSGuid \<Rightarrow> string \<Rightarrow> 'a option" where
  "PSGuid_getattr self attr = dict self attr"

section \<open>encryption.py\<close>

subsection \<open>Library operations: \<open>struct\<close>, slices, \<open>int(bytes)\<close>, \<open>range\<close>\<close>

definition pack_i :: "int \<Rightarrow> error + bytes" where
  \<comment> \<open>\<open>struct.pack("<i", n)\<close>\<close>
  "pack_i n =
     (if - 2147483648 \<le> n \<and> n < 2147483648
      then Inr [char_of n, char_of (n div 256), char_of (n div 65536), char_of (n div 16777216)]
      else Inl StructError)"

definition unpack_i :: "bytes \<Rightarrow> error + int" where
  \<comment> \<open>\<open>struct.unpack("<i", b)[0]\<close>\<close>
  "unpack_i b =
     (case b of
        [b0, b1, b2, b3] \<Rightarrow>
          (let u = of_char b0 + 256 * of_char b1 + 65536 * of_char b2 + 16777216 * of_char b3
           in Inr (if 2147483648 \<le> u then u - 4294967296 else u))
      | _ \<Rightarrow> Inl StructError)"

definition slice_index :: "int \<Rightarrow> nat \<Rightarrow> nat" where
  \<comment> \<open>a negative index counts from the end; the result is clamped to the length\<close>
  "slice_index i n = (if i < 0 then nat (int n + i) else min (nat i) n)"

definition slice :: "'a list \<Rightarrow> int \<Rightarrow> int \<Rightarrow> 'a list" where
  \<comment> \<open>\<open>xs[a:b]\<close>\<close>
  "slice xs a b =
     (let lo = slice_index a (length xs); hi = slice_index b (length xs)
      in take (hi - lo) (drop lo xs))"

definition slice_from :: "'a list \<Rightarrow> int \<Rightarrow> 'a list" where
  \<comment> \<open>\<open>xs[a:]\<close>\<close>
  "slice_from xs a = drop (slice_index a (length xs)) xs"

definition slice_to :: "'a list \<Rightarrow> int \<Rightarrow> 'a list" where
  \<comment> \<open>\<open>xs[:b]\<close>\<close>
  "slice_to xs b = take (slice_index b (length xs)) xs"

definition is_digit :: "char \<Rightarrow> bool" where
  "is_digit c = (c \<in> set ''0123456789'')"

definition digit_val :: "char \<Rightarrow> nat" where
  "digit_val c = of_char c - 48"

definition digits_val :: "string \<Rightarrow> nat" where
  "digits_val ds = foldl (\<lambda>a c. 10 * a + digit_val c) 0 ds"

definition valid_literal :: "string \<Rightarrow> bool" where
  \<comment> \<open>decimal digits, single underscores allowed between digits\<close>
  "valid_literal body =
     (body \<noteq> [] \<and> is_digit (hd body) \<and> is_digit (last body)
      \<and> list_all (\<lambda>c. is_digit c \<or> c = CHR ''_'') body \<and> \<not> sublist ''__'' body)"

text \<open>
  \<open>int(b)\<close> on a byte string, as Python 3 reads it: surrounding ASCII whitespace, an
  optional sign, decimal digits. \<open>None\<close> stands for the \<open>ValueError\<close>.
\<close>

definition int_of_bytes :: "bytes \<Rightarrow> int option" where
  "int_of_bytes s =
     (let t = strip_bytes s;
          neg = (t \<noteq> [] \<and> hd t = CHR ''-'');
          body = (if t \<noteq> [] \<and> (hd t = CHR ''-'' \<or> hd t = CHR ''+'') then tl t else t)
      in if valid_literal body
         then Some ((if neg then - 1 else 1) * int (digits_val (filter is_digit body)))
         else None)"

text \<open>\<open>range(start, stop, step)\<close> for a positive step.\<close>

function range :: "nat \<Rightarrow> nat \<Rightarrow> nat \<Rightarrow> nat list" where
  "range start stop step =
     (if step = 0 \<or> stop \<le> start then [] else start # range (start + step) stop step)"
  by pat_completeness auto
termination
  by (relation "measure (\<lambda>(start, stop, step). stop - start)") auto

declare range.simps [simp del]

subsection \<open>The security context of a host\<close>

text \<open>
  The context objects are supplied by the authentication layer. Their operations are
  the fields of the record: \<open>wrap\<close> and \<open>unwrap\<close> of an SPNEGO context (with a separate
  header), \<open>wrap\<close> and \<open>unwrap\<close> of a CredSSP context, and the name of the negotiated
  cipher suite. Each may raise. The operations are functions of their arguments: the
  sequence numbers a real context keeps are not part of the model.
\<close>

record security_context =
  wrap_gss :: "bytes \<Rightarrow> error + (bytes \<times> bytes)"
  unwrap_gss :: "bytes \<Rightarrow> bytes \<Rightarrow> error + bytes"
  wrap_tls :: "bytes \<Rightarrow> error + bytes"
  unwrap_tls :: "bytes \<Rightarrow> error + bytes"
  get_cipher_name :: string

record WinRMEncryption =
  contexts :: "string \<Rightarrow> security_context option"
  protocol :: string

definition SIXTEEN_KB :: nat where "SIXTEEN_KB = 16384"
definition MIME_BOUNDARY :: string where "MIME_BOUNDARY = ''--Encrypted Boundary''"
definition CREDSSP :: string where "CREDSSP = ''application/HTTP-CredSSP-session-encrypted''"
definition SPNEGO :: string where "SPNEGO = ''application/HTTP-SPNEGO-session-encrypted''"

text \<open>
  Modelled from the spec: \<open>to_bytes\<close> of \<open>pypsrp._utils\<close> is not among the sources. It
  encodes text as bytes; the header lines of the wire format are ASCII, whose encoding is
  the text itself.
\<close>

definition to_bytes :: "string \<Rightarrow> bytes" where
  "to_bytes s = s"

definition WinRMEncryption_init ::
  "(string \<Rightarrow> security_context option) \<Rightarrow> string \<Rightarrow> WinRMEncryption" where
  "WinRMEncryption_init auth proto = \<lparr>contexts = auth, protocol = proto\<rparr>"

subsection \<open>\<open>_credssp_trailer\<close>\<close>

text \<open>
  \<open>[\w\d]\<close> of a pattern on text: the digits, the letters and the underscore of ASCII,
  and the code points from 128 to 255 that are alphanumeric (\<open>str.isalnum\<close>): the
  ordinal indicators, the superscript digits, the micro sign, the vulgar fractions and the
  accented letters, without the multiplication and the division sign.
\<close>

definition word_char :: "char \<Rightarrow> bool" where
  "word_char c =
     (let n = (of_char c :: nat) in
      (0x30 \<le> n \<and> n \<le> 0x39) \<or> (0x41 \<le> n \<and> n \<le> 0x5A) \<or> n = 0x5F
      \<or> (0x61 \<le> n \<and> n \<le> 0x7A) \<or> n = 0xAA \<or> (0xB2 \<le> n \<and> n \<le> 0xB3) \<or> n = 0xB5
      \<or> (0xB9 \<le> n \<and> n \<le> 0xBA) \<or> (0xBC \<le> n \<and> n \<le> 0xBE) \<or> (0xC0 \<le> n \<and> n \<le> 0xD6)
      \<or> (0xD8 \<le> n \<and> n \<le> 0xF6) \<or> (0xF8 \<le> n \<and> n \<le> 0xFF))"

definition gcm_tail :: "string \<Rightarrow> bool" where
  \<comment> \<open>\<open>[\w\d]*$\<close>: \<open>$\<close> matches at the end and before a final newline\<close>
  "gcm_tail r = (list_all word_char r \<or> (r \<noteq> [] \<and> last r = LF \<and> list_all word_char (butlast r)))"

definition gcm_pattern :: "string \<Rightarrow> bool" where
  \<comment> \<open>\<open>re.match(r'^.*-GCM-[\w\d]*$', s)\<close>: \<open>.\<close> matches every character but a newline\<close>
  "gcm_pattern s =
     list_ex (\<lambda>i. LF \<notin> set (take i s) \<and> prefix ''-GCM-'' (drop i s) \<and> gcm_tail (drop (i + 5) s))
       [0..<Suc (length s)]"

definition hash_lengths :: "(string \<times> int) list" where
  "hash_lengths = [(''MD5'', 16), (''SHA'', 20), (''SHA256'', 32), (''SHA384'', 48)]"

definition credssp_trailer :: "int \<Rightarrow> string \<Rightarrow> int" where
  "credssp_trailer msg_len cipher_suite =
     (if gcm_pattern cipher_suite then 16
      else
        (let hash_algorithm = last (split cipher_suite ''-'');
             hash_length = (case map_of hash_lengths hash_algorithm of Some n \<Rightarrow> n | None \<Rightarrow> 0);
             pre_pad_length = msg_len + hash_length;
             padding_length =
               (if sublist ''RC4'' cipher_suite then 0
                else if sublist ''DES'' cipher_suite \<or> sublist ''3DES'' cipher_suite
                  then 8 - (pre_pad_length mod 8)
                else 16 - (pre_pad_length mod 16))
         in (pre_pad_length + padding_length) - msg_len))"

text \<open>The same computation in the words of the specification.\<close>

definition spec_hash_length :: "string \<Rightarrow> int" where
  "spec_hash_length token =
     (if token = ''MD5'' then 16 else if token = ''SHA'' then 20
      else if token = ''SHA256'' then 32 else if token = ''SHA384'' then 48 else 0)"

definition spec_padding :: "string \<Rightarrow> int \<Rightarrow> int" where
  "spec_padding suite pre_pad =
     (if sublist ''RC4'' suite then 0
      else if sublist ''3DES'' suite \<or> sublist ''DES'' suite then 8 - pre_pad mod 8
      else 16 - pre_pad mod 16)"

definition spec_trailer :: "int \<Rightarrow> string \<Rightarrow> int" where
  "spec_trailer plaintext_length suite =
     (if gcm_pattern suite then 16
      else (plaintext_length + spec_hash_length (last (split suite ''-''))
            + spec_padding suite (plaintext_length + spec_hash_length (last (split suite ''-''))))
           - plaintext_length)"

subsection \<open>Wrapping\<close>

definition wrap_spnego :: "WinRMEncryption \<Rightarrow> bytes \<Rightarrow> string \<Rightarrow> error + bytes" where
  "wrap_spnego self data hostname =
     (case contexts self hostname of
        None \<Rightarrow> Inl (KeyError hostname)
      | Some context \<Rightarrow>
          (case wrap_gss context data of
             Inl e \<Rightarrow> Inl e
           | Inr (header, wrapped_data) \<Rightarrow>
               (case pack_i (int (length header)) of
                  Inl e \<Rightarrow> Inl e
                | Inr n \<Rightarrow> Inr (n @ header @ wrapped_data))))"

definition wrap_credssp :: "WinRMEncryption \<Rightarrow> bytes \<Rightarrow> string \<Rightarrow> error + bytes" where
  "wrap_credssp self data hostname =
     (case contexts self hostname of
        None \<Rightarrow> Inl (KeyError hostname)
      | Some context \<Rightarrow>
          (case wrap_tls context data of
             Inl e \<Rightarrow> Inl e
           | Inr wrapped_data \<Rightarrow>
               (let cipher_negotiated = get_cipher_name context;
                    trailer_length = credssp_trailer (int (length data)) cipher_negotiated
                in case pack_i trailer_length of
                     Inl e \<Rightarrow> Inl e
                   | Inr n \<Rightarrow> Inr (n @ wrapped_data))))"

definition unwrap_spnego :: "WinRMEncryption \<Rightarrow> bytes \<Rightarrow> string \<Rightarrow> error + bytes" where
  "unwrap_spnego self data hostname =
     (case contexts self hostname of
        None \<Rightarrow> Inl (KeyError hostname)
      | Some context \<Rightarrow>
          (case unpack_i (slice_to data 4) of
             Inl e \<Rightarrow> Inl e
           | Inr header_length \<Rightarrow>
               (let header = slice data 4 (4 + header_length);
                    wrapped_data = slice_from data (4 + header_length)
                in unwrap_gss context header wrapped_data)))"

definition unwrap_credssp :: "WinRMEncryption \<Rightarrow> bytes \<Rightarrow> string \<Rightarrow> error + bytes" where
  "unwrap_credssp self data hostname =
     (case contexts self hostname of
        None \<Rightarrow> Inl (KeyError hostname)
      | Some context \<Rightarrow> unwrap_tls context (slice_from data 4))"

text \<open>
  \<open>__init__\<close> binds \<open>self._wrap\<close> and \<open>self._unwrap\<close> by comparing the protocol with
  \<open>SPNEGO\<close>; nothing reassigns them or the protocol afterwards.
\<close>

definition priv_wrap :: "WinRMEncryption \<Rightarrow> bytes \<Rightarrow> string \<Rightarrow> error + bytes" where
  "priv_wrap self data hostname =
     (if protocol self = SPNEGO then wrap_spnego self data hostname
      else wrap_credssp self data hostname)"

definition priv_unwrap :: "WinRMEncryption \<Rightarrow> bytes \<Rightarrow> string \<Rightarrow> error + bytes" where
  "priv_unwrap self data hostname =
     (if protocol self = SPNEGO then unwrap_spnego self data hostname
      else unwrap_credssp self data hostname)"

definition priv_wrap_message :: "WinRMEncryption \<Rightarrow> bytes \<Rightarrow> string \<Rightarrow> error + bytes" where
  "priv_wrap_message self message hostname =
     (let msg_length = str_int (int (length message)) in
      case priv_wrap self message hostname of
        Inl e \<Rightarrow> Inl e
      | Inr wrapped_data \<Rightarrow>
          (let payload = join CRLF
                 [MIME_BOUNDARY,
                  TAB # ''Content-Type: '' @ protocol self,
                  TAB # ''OriginalContent: type=application/soap+xml;charset=UTF-8;Length=''
                    @ msg_length,
                  MIME_BOUNDARY,
                  TAB # ''Content-Type: application/octet-stream'',
                  '''']
           in Inr (to_bytes payload @ wrapped_data)))"

definition chunks :: "bytes \<Rightarrow> bytes list" where
  \<comment> \<open>\<open>[message[i:i + SIXTEEN_KB] for i in range(0, len(message), SIXTEEN_KB)]\<close>\<close>
  "chunks message =
     map (\<lambda>i. slice message (int i) (int (i + SIXTEEN_KB))) (range 0 (length message) SIXTEEN_KB)"

text \<open>The \<open>for chunk in chunks\<close> loop of \<open>wrap_message\<close>.\<close>

fun wrap_chunks :: "WinRMEncryption \<Rightarrow> string \<Rightarrow> bytes list \<Rightarrow> bytes \<Rightarrow> error + bytes" where
  "wrap_chunks self hostname [] encrypted_msg = Inr encrypted_msg"
| "wrap_chunks self hostname (chunk # rest) encrypted_msg =
     (case priv_wrap_message self chunk hostname of
        Inl e \<Rightarrow> Inl e
      | Inr encrypted_chunk \<Rightarrow> wrap_chunks self hostname rest (encrypted_msg @ encrypted_chunk))"

definition wrap_message :: "WinRMEncryption \<Rightarrow> bytes \<Rightarrow> string \<Rightarrow> error + (string \<times> bytes)" where
  "wrap_message self message hostname =
     (if protocol self = CREDSSP \<and> length message > SIXTEEN_KB then
        (case wrap_chunks self hostname (chunks message) [] of
           Inl e \<Rightarrow> Inl e
         | Inr encrypted_msg \<Rightarrow>
             Inr (''multipart/x-multi-encrypted'',
                  encrypted_msg @ to_bytes (MIME_BOUNDARY @ ''--'' @ CRLF)))
      else
        (case priv_wrap_message self message hostname of
           Inl e \<Rightarrow> Inl e
         | Inr encrypted_msg \<Rightarrow>
             Inr (''multipart/encrypted'',
                  encrypted_msg @ to_bytes (MIME_BOUNDARY @ ''--'' @ CRLF))))"

subsection \<open>Unwrapping\<close>

definition length_mismatch_msg :: "int \<Rightarrow> int \<Rightarrow> string" where
  "length_mismatch_msg actual_length expected_length =
     ''The encrypted length from the server does not match the expected length, ''
     @ ''decryption failed, actual: '' @ str_int actual_length
     @ '' != expected: '' @ str_int expected_length"

definition expected_length_of :: "bytes \<Rightarrow> error + int" where
  \<comment> \<open>\<open>int(header.split(b"Length=")[1])\<close>\<close>
  "expected_length_of header =
     (case split header ''Length='' of
        _ # field # _ \<Rightarrow>
          (case int_of_bytes field of
             None \<Rightarrow> Inl (ValueError ''invalid literal for int() with base 10'')
           | Some n \<Rightarrow> Inr n)
      | _ \<Rightarrow> Inl IndexError)"

definition wrapped_data_of :: "bytes \<Rightarrow> bytes" where
  \<comment> \<open>the end MIME block is cut off, then the octet-stream line is replaced by nothing\<close>
  "wrapped_data_of payload =
     (let payload = (if suffix (to_bytes (MIME_BOUNDARY @ ''--'' @ CRLF)) payload
                     then slice_to payload (int (length payload) - 24) else payload)
      in replace payload (TAB # ''Content-Type: application/octet-stream'' @ CRLF) [])"

text \<open>
  One pass of the loop of \<open>unwrap_message\<close> up to the comparison of the lengths: the
  declared length of the header and the data the mechanism recovers from the payload.
\<close>

definition recover_chunk ::
  "WinRMEncryption \<Rightarrow> string \<Rightarrow> bytes \<Rightarrow> bytes \<Rightarrow> error + (int \<times> bytes)" where
  "recover_chunk self hostname part payload =
     (let header = strip_bytes part in
      case expected_length_of header of
        Inl e \<Rightarrow> Inl e
      | Inr expected_length \<Rightarrow>
          (case priv_unwrap self (wrapped_data_of payload) hostname of
             Inl e \<Rightarrow> Inl e
           | Inr unwrapped_data \<Rightarrow> Inr (expected_length, unwrapped_data)))"

text \<open>
  The loop \<open>for i in range(0, len(parts), 2)\<close>: \<open>parts[i + 1]\<close> raises \<open>IndexError\<close>
  when a header is the last part.
\<close>

fun unwrap_parts :: "WinRMEncryption \<Rightarrow> string \<Rightarrow> bytes list \<Rightarrow> bytes \<Rightarrow> error + bytes" where
  "unwrap_parts self hostname [] message = Inr message"
| "unwrap_parts self hostname [part] message = Inl IndexError"
| "unwrap_parts self hostname (part # payload # rest) message =
     (case recover_chunk self hostname part payload of
        Inl e \<Rightarrow> Inl e
      | Inr (expected_length, unwrapped_data) \<Rightarrow>
          (let actual_length = int (length unwrapped_data) in
           if actual_length \<noteq> expected_length
           then Inl (WinRMError (length_mismatch_msg actual_length expected_length))
           else unwrap_parts self hostname rest (message @ unwrapped_data)))"

definition envelope_parts :: "bytes \<Rightarrow> bytes list" where
  "envelope_parts message =
     filter (\<lambda>p. p \<noteq> []) (split message (to_bytes (MIME_BOUNDARY @ CRLF)))"

definition unwrap_message :: "WinRMEncryption \<Rightarrow> bytes \<Rightarrow> string \<Rightarrow> error + bytes" where
  "unwrap_message self message hostname = unwrap_parts self hostname (envelope_parts message) []"

subsection \<open>The lines of the frame, and the chunks of an envelope\<close>

definition boundary_line :: bytes where
  "boundary_line = MIME_BOUNDARY @ CRLF"

definition end_block :: bytes where
  "end_block = MIME_BOUNDARY @ ''--'' @ CRLF"

definition octet_stream_line :: bytes where
  "octet_stream_line = TAB # ''Content-Type: application/octet-stream'' @ CRLF"

text \<open>
  The declared length and the recovered data of every header and payload pair of a list
  of parts, when each pair can be read: an envelope whose parts give \<open>Inr\<close> here is well
  formed.
\<close>

fun recovered_chunks ::
  "WinRMEncryption \<Rightarrow> string \<Rightarrow> bytes list \<Rightarrow> error + (int \<times> bytes) list" where
  "recovered_chunks self hostname [] = Inr []"
| "recovered_chunks self hostname [part] = Inl IndexError"
| "recovered_chunks self hostname (part # payload # rest) =
     (case recover_chunk self hostname part payload of
        Inl e \<Rightarrow> Inl e
      | Inr c \<Rightarrow>
          (case recovered_chunks self hostname rest of
             Inl e \<Rightarrow> Inl e
           | Inr cs \<Rightarrow> Inr (c # cs)))"

definition length_differs :: "int \<times> bytes \<Rightarrow> bool" where
  "length_differs c = (int (length (snd c)) \<noteq> fst c)"

subsection \<open>Vocabulary of the round trip\<close>

text \<open>
  The unwrap operations of a context undo its wrap operations.
\<close>

definition inverse_context :: "security_context \<Rightarrow> bool" where
  "inverse_context c =
     ((\<forall>data header wrapped.
         wrap_gss c data = Inr (header, wrapped) \<longrightarrow> unwrap_gss c header wrapped = Inr data)
      \<and> (\<forall>data wrapped. wrap_tls c data = Inr wrapped \<longrightarrow> unwrap_tls c wrapped = Inr data))"

text \<open>The chunks that \<open>wrap_message\<close> wraps one by one.\<close>

definition message_chunks :: "WinRMEncryption \<Rightarrow> bytes \<Rightarrow> bytes list" where
  "message_chunks self message =
     (if protocol self = CREDSSP \<and> length message > SIXTEEN_KB then chunks message
      else [message])"

text \<open>The two header lines of a chunk of \<open>n\<close> bytes, and the frame of a chunk.\<close>

definition header_lines :: "string \<Rightarrow> nat \<Rightarrow> bytes" where
  "header_lines proto n =
     TAB # ''Content-Type: '' @ proto @ CRLF
     @ TAB # ''OriginalContent: type=application/soap+xml;charset=UTF-8;Length=''
     @ str_int (int n) @ CRLF"

definition frame :: "string \<Rightarrow> bytes \<times> bytes \<Rightarrow> bytes" where
  "frame proto cw =
     boundary_line @ header_lines proto (length (fst cw)) @ boundary_line
     @ octet_stream_line @ snd cw"

text \<open>The header lines of a chunk, stripped, up to the field of the length.\<close>

definition header_prefix :: "string \<Rightarrow> bytes" where
  "header_prefix proto =
     ''Content-Type: '' @ proto @ CRLF
     @ TAB # ''OriginalContent: type=application/soap+xml;charset=UTF-8;''"

text \<open>
  The parts that the boundary line separates in the frames of a list of chunks (each with
  the bytes its wrap emitted) followed by the end block, when \<open>cur\<close> is the part
  collected so far.
\<close>

fun tail_parts :: "string \<Rightarrow> bytes \<Rightarrow> (bytes \<times> bytes) list \<Rightarrow> bytes list" where
  "tail_parts proto cur [] = [cur @ end_block]"
| "tail_parts proto cur (cw # fs) =
     cur # header_lines proto (length (fst cw)) # tail_parts proto (octet_stream_line @ snd cw) fs"

text \<open>No hyphen of the text is followed by a hyphen or ends the text.\<close>

fun dash_free :: "string \<Rightarrow> bool" where
  "dash_free [] = True"
| "dash_free [c] = (c \<noteq> CHR ''-'')"
| "dash_free (c # d # r) = (\<not> (c = CHR ''-'' \<and> d = CHR ''-'') \<and> dash_free (d # r))"

section \<open>Fixtures\<close>

text \<open>
  A context whose wrap and unwrap operations do nothing to the data (the SPNEGO wrap adds
  a three-byte header), and an encryption helper per mechanism for the host \<open>server\<close>.
\<close>

definition echo_context :: security_context where
  "echo_context =
     \<lparr>wrap_gss = (\<lambda>data. Inr (''sig'', data)),
      unwrap_gss = (\<lambda>header data. Inr data),
      wrap_tls = (\<lambda>data. Inr data),
      unwrap_tls = (\<lambda>data. Inr data),
      get_cipher_name = ''ECDHE-RSA-AES256-GCM-SHA384''\<rparr>"

definition echo_credssp :: WinRMEncryption where
  "echo_credssp = WinRMEncryption_init [''server'' \<mapsto> echo_context] CREDSSP"

definition echo_spnego :: WinRMEncryption where
  "echo_spnego = WinRMEncryption_init [''server'' \<mapsto> echo_context] SPNEGO"

text \<open>
  An envelope of one CredSSP chunk put together by hand: the header declares the length
  \<open>n\<close>, the payload is the trailer length 16 and the data.
\<close>

definition forged_envelope :: "int \<Rightarrow> bytes \<Rightarrow> bytes" where
  "forged_envelope n data =
     boundary_line @ TAB # ''Content-Type: '' @ CREDSSP @ CRLF
     @ TAB # ''OriginalContent: type=application/soap+xml;charset=UTF-8;Length='' @ str_int n @ CRLF
     @ boundary_line @ octet_stream_line @ [CHR 0x10, CHR 0x00, CHR 0x00, CHR 0x00] @ data
     @ end_block"

section \<open>The enum codec: theorems\<close>

lemma str_flags_loop_greedy:
  "\<forall>v \<in> set vs. em v \<noteq> None \<Longrightarrow>
   str_flags_loop em vs fs r =
     Inr (fs @ fst (greedy (labelled em vs) r), snd (greedy (labelled em vs) r))"
proof (induction vs arbitrary: fs r)
  case Nil
  then show ?case by (simp add: labelled_def)
next
  case (Cons v vs)
  from Cons.prems obtain l where l: "em v = Some l" by auto
  have rest: "\<forall>v \<in> set vs. em v \<noteq> None" using Cons.prems by simp
  have lab: "labelled em (v # vs) = (v, l) # labelled em vs"
    by (simp add: labelled_def l)
  show ?case
    by (simp add: lab l Cons.IH [OF rest] split: prod.split)
qed

lemma enum_map_None_iff: "enum_map cls v = None \<longleftrightarrow> v \<notin> snd ` set (ENUM_MAP cls)"
  by (force simp: enum_map_def inverted_def map_of_eq_None_iff image_iff)

lemma enum_map_Some: "enum_map cls v = Some l \<Longrightarrow> (l, v) \<in> set (ENUM_MAP cls)"
  by (auto simp: enum_map_def inverted_def dest!: map_of_SomeD)

lemma set_sorted_flags: "set (sorted_flags cls) = snd ` set (ENUM_MAP cls) - {0}"
  by (force simp: sorted_flags_def inverted_def image_iff)

lemma sorted_flags_descending: "sorted_wrt (\<lambda>a b. a > b) (sorted_flags cls)"
proof -
  let ?xs = "remdups (filter (\<lambda>v. v \<noteq> 0) (map fst (inverted (ENUM_MAP cls))))"
  have "sorted (sort ?xs)" "distinct (sort ?xs)" by simp_all
  then have "sorted_wrt (<) (sort ?xs)" by (simp add: strict_sorted_iff)
  then have "sorted_wrt (\<lambda>a b. b < a) (rev (sort ?xs))" by (simp add: sorted_wrt_rev)
  then show ?thesis by (simp add: sorted_flags_def)
qed

lemma sorted_flags_labelled: "v \<in> set (sorted_flags cls) \<Longrightarrow> enum_map cls v \<noteq> None"
  by (simp add: set_sorted_flags enum_map_None_iff)

lemma map_fst_labelled: "\<forall>v \<in> set vs. em v \<noteq> None \<Longrightarrow> map fst (labelled em vs) = vs"
  by (induction vs) (auto simp: labelled_def)

text \<open>
  C6. For every enum class and every integer, \<open>__str__\<close> returns (it never raises) the
  string the decoding rule of the specification describes: for a non-flag enum the label
  of the integer in the inverted map, or the integer in decimal when there is none; for a
  flag enum the label when the integer is a defined value, and otherwise the labels the
  greedy pass over the candidates emits, followed by a non-zero residual in decimal,
  joined with a comma and a space, or the integer in decimal when no token was emitted.
  The candidates are the defined values other than zero, in strictly descending order,
  each with its label in the inverted map; a label of the inverted map is a label whose
  value is the integer looked up.
\<close>

theorem PSEnumBase_str_decode:
  "PSEnumBase_str cls v = Inr (decode_spec cls v)
   \<and> map fst (candidates cls) = sorted_flags cls
   \<and> sorted_wrt (\<lambda>a b. a > b) (sorted_flags cls)
   \<and> set (sorted_flags cls) = snd ` set (ENUM_MAP cls) - {0}
   \<and> (\<forall>c l. (c, l) \<in> set (candidates cls) \<longrightarrow> enum_map cls c = Some l)
   \<and> (\<forall>l. enum_map cls v = Some l \<longrightarrow> (l, v) \<in> set (ENUM_MAP cls))
   \<and> (enum_map cls v = None \<longleftrightarrow> v \<notin> snd ` set (ENUM_MAP cls))"
proof -
  have all: "\<forall>v \<in> set (sorted_flags cls). enum_map cls v \<noteq> None"
    by (simp add: sorted_flags_labelled)
  have "PSEnumBase_str cls v = Inr (decode_spec cls v)"
  proof (cases "IS_FLAGS cls")
    case False
    then show ?thesis by (simp add: PSEnumBase_str_def decode_spec_def)
  next
    case flags: True
    show ?thesis
    proof (cases "enum_map cls v")
      case (Some l)
      with flags show ?thesis by (simp add: PSEnumBase_str_def decode_spec_def)
    next
      case None
      obtain ls r where g: "greedy (labelled (enum_map cls) (sorted_flags cls)) v = (ls, r)"
        by (cases "greedy (labelled (enum_map cls) (sorted_flags cls)) v")
      have loop: "str_flags_loop (enum_map cls) (sorted_flags cls) [] v = Inr (ls, r)"
        by (simp add: str_flags_loop_greedy [OF all] g)
      show ?thesis
        by (simp add: PSEnumBase_str_def decode_spec_def candidates_def flags None loop g Let_def)
    qed
  qed
  moreover have "map fst (candidates cls) = sorted_flags cls"
    by (simp add: candidates_def map_fst_labelled [OF all])
  moreover note sorted_flags_descending [of cls] set_sorted_flags [of cls]
  moreover have "\<forall>c l. (c, l) \<in> set (candidates cls) \<longrightarrow> enum_map cls c = Some l"
    by (auto simp: candidates_def labelled_def split: option.splits)
  moreover have "\<forall>l. enum_map cls v = Some l \<longrightarrow> (l, v) \<in> set (ENUM_MAP cls)"
    by (simp add: enum_map_Some)
  moreover note enum_map_None_iff [of cls v]
  ultimately show ?thesis by (intro conjI)
qed

theorem PSEnumBase_str_decode_witness:
  "PSEnumBase_str FileAccess 13 = Inr ''Execute, Read, 8''"
proof -
  have d: "decode_spec FileAccess 13 = ''Execute, Read, 8''" by code_simp
  from PSEnumBase_str_decode [of FileAccess 13] show ?thesis by (simp add: d)
qed

lemma new_flags_loop_ok:
  "\<forall>t \<in> set labels. map_of (ENUM_MAP cls) (strip_text t) \<noteq> None \<Longrightarrow>
   new_flags_loop cls labels acc =
     Inr (foldl (OR) acc (map (\<lambda>t. the (map_of (ENUM_MAP cls) t)) (map strip_text labels)))"
  by (induction labels arbitrary: acc) (auto simp: Let_def)

lemma new_flags_loop_bad:
  "find (\<lambda>t. map_of (ENUM_MAP cls) t = None) (map strip_text labels) = Some t \<Longrightarrow>
   new_flags_loop cls labels acc = Inl (ValueError (invalid_flag_msg t (keys (ENUM_MAP cls))))"
  by (induction labels arbitrary: acc) (auto simp: Let_def split: if_splits)

lemma foldl_or_zero: "\<forall>x \<in> set xs. x = (0::int) \<Longrightarrow> foldl (OR) 0 xs = 0"
  by (induction xs) auto

lemma sublist_append_left: "sublist l ys \<Longrightarrow> sublist l (xs @ ys)"
proof -
  assume "sublist l ys"
  then obtain ps ss where "ys = ps @ l @ ss" by (auto simp: sublist_def)
  then have "xs @ ys = (xs @ ps) @ l @ ss" by simp
  then show ?thesis unfolding sublist_def by blast
qed

lemma sublist_join: "l \<in> set ks \<Longrightarrow> sublist l (join sep ks)"
proof (induction sep ks rule: join.induct)
  case (1 sep)
  then show ?case by simp
next
  case (2 sep x)
  then show ?case by simp
next
  case (3 sep x y ys)
  show ?case
  proof (cases "l = x")
    case True
    then show ?thesis by simp
  next
    case False
    with "3.prems" have "l \<in> set (y # ys)" by simp
    from "3.IH" [OF this] have "sublist l (join sep (y # ys))" .
    then have "sublist l ((x @ sep) @ join sep (y # ys))" by (rule sublist_append_left)
    then show ?thesis by simp
  qed
qed

lemma invalid_flag_msg_text:
  "invalid_flag_msg t (keys items) =
     ''Invalid enum flag '' @ [CHR 0x27] @ t @ [CHR 0x27] @ '', valid flags: ''
     @ join '', '' (map fst items)"
  by (simp add: invalid_flag_msg_def keys_def QUOTE_def)

text \<open>
  C7. For a flag enum and a text value, let the tokens be the parts of the value between
  commas, each stripped of surrounding whitespace. If every token is a label, \<open>__new__\<close>
  returns the bitwise OR of the values of the tokens; otherwise it raises the
  \<open>ValueError\<close> with the text \<open>Invalid enum flag 't', valid flags: \<close> and the labels
  of the class joined by a comma and a space, where \<open>t\<close> is the first token that is not
  a label. It raises if and only if some token is not a label, and every error it raises
  holds, between quotes, a token of the value that is not a label, and holds every label
  of the class. When every token maps to 0 the result is 0. (The empty string has one
  token, the empty one, so it is accepted only by a class that has the empty label.)
\<close>

theorem PSEnumBase_new_flags:
  assumes "IS_FLAGS cls"
  shows "(case find (\<lambda>t. map_of (ENUM_MAP cls) t = None) (flag_tokens v) of
           None \<Rightarrow> PSEnumBase_new cls (Text v) =
                     Inr (foldl (OR) 0 (map (\<lambda>t. the (map_of (ENUM_MAP cls) t)) (flag_tokens v)))
         | Some t \<Rightarrow> PSEnumBase_new cls (Text v) =
                     Inl (ValueError (''Invalid enum flag '' @ [CHR 0x27] @ t @ [CHR 0x27]
                                      @ '', valid flags: '' @ join '', '' (map fst (ENUM_MAP cls)))))
       \<and> ((\<exists>e. PSEnumBase_new cls (Text v) = Inl e) \<longleftrightarrow>
            (\<exists>t \<in> set (flag_tokens v). t \<notin> fst ` set (ENUM_MAP cls)))
       \<and> (\<forall>e. PSEnumBase_new cls (Text v) = Inl e \<longrightarrow>
            (\<exists>t msg. e = ValueError msg \<and> t \<in> set (flag_tokens v) \<and> t \<notin> fst ` set (ENUM_MAP cls)
               \<and> sublist ([CHR 0x27] @ t @ [CHR 0x27]) msg
               \<and> (\<forall>l \<in> fst ` set (ENUM_MAP cls). sublist l msg)))
       \<and> ((\<forall>t \<in> set (flag_tokens v). map_of (ENUM_MAP cls) t = Some 0) \<longrightarrow>
            PSEnumBase_new cls (Text v) = Inr 0)"
proof -
  let ?m = "map_of (ENUM_MAP cls)"
  let ?bad = "find (\<lambda>t. ?m t = None) (flag_tokens v)"
  let ?msg = "\<lambda>t. ''Invalid enum flag '' @ [CHR 0x27] @ t @ [CHR 0x27]
                  @ '', valid flags: '' @ join '', '' (map fst (ENUM_MAP cls))"
  have none: "PSEnumBase_new cls (Text v) =
                Inr (foldl (OR) 0 (map (\<lambda>t. the (?m t)) (flag_tokens v)))"
    if "?bad = None"
  proof -
    from that have "\<forall>t \<in> set (split v '',''). ?m (strip_text t) \<noteq> None"
      by (auto simp: find_None_iff flag_tokens_def)
    from new_flags_loop_ok [OF this] show ?thesis by (simp add: assms flag_tokens_def)
  qed
  have some: "PSEnumBase_new cls (Text v) = Inl (ValueError (?msg t))"
    if "?bad = Some t" for t
    using new_flags_loop_bad [of cls "split v '',''" t 0] that
    by (simp add: assms flag_tokens_def invalid_flag_msg_text)
  have first: "case ?bad of
           None \<Rightarrow> PSEnumBase_new cls (Text v) =
                     Inr (foldl (OR) 0 (map (\<lambda>t. the (?m t)) (flag_tokens v)))
         | Some t \<Rightarrow> PSEnumBase_new cls (Text v) = Inl (ValueError (?msg t))"
    using none some by (cases ?bad) simp_all
  have dom: "?m t = None \<longleftrightarrow> t \<notin> fst ` set (ENUM_MAP cls)" for t
    by (simp add: map_of_eq_None_iff)
  have names: "sublist ([CHR 0x27] @ t @ [CHR 0x27]) (?msg t)" for t
  proof -
    have "sublist ([CHR 0x27] @ t @ [CHR 0x27])
            (''Invalid enum flag '' @ ([CHR 0x27] @ t @ [CHR 0x27])
             @ ('', valid flags: '' @ join '', '' (map fst (ENUM_MAP cls))))"
      by (rule sublist_appendI)
    then show ?thesis by simp
  qed
  have lists: "sublist l (?msg t)" if "l \<in> fst ` set (ENUM_MAP cls)" for l t
  proof -
    from that have "l \<in> set (map fst (ENUM_MAP cls))" by simp
    then have "sublist l (join '', '' (map fst (ENUM_MAP cls)))" by (rule sublist_join)
    then have "sublist l ((''Invalid enum flag '' @ [CHR 0x27] @ t @ [CHR 0x27]
                  @ '', valid flags: '') @ join '', '' (map fst (ENUM_MAP cls)))"
      by (rule sublist_append_left)
    then show ?thesis by simp
  qed
  have fails: "(\<exists>e. PSEnumBase_new cls (Text v) = Inl e) \<longleftrightarrow>
            (\<exists>t \<in> set (flag_tokens v). t \<notin> fst ` set (ENUM_MAP cls))"
  proof (cases ?bad)
    case None
    then have "\<forall>t \<in> set (flag_tokens v). t \<in> fst ` set (ENUM_MAP cls)"
      by (auto simp: find_None_iff dom)
    with none [OF None] show ?thesis by auto
  next
    case (Some t)
    then have "t \<in> set (flag_tokens v)" "?m t = None"
      by (auto simp: find_Some_iff)
    with some [OF Some] show ?thesis by (auto simp: dom)
  qed
  have err: "\<forall>e. PSEnumBase_new cls (Text v) = Inl e \<longrightarrow>
            (\<exists>t msg. e = ValueError msg \<and> t \<in> set (flag_tokens v) \<and> t \<notin> fst ` set (ENUM_MAP cls)
               \<and> sublist ([CHR 0x27] @ t @ [CHR 0x27]) msg
               \<and> (\<forall>l \<in> fst ` set (ENUM_MAP cls). sublist l msg))"
  proof (intro allI impI)
    fix e assume e: "PSEnumBase_new cls (Text v) = Inl e"
    show "\<exists>t msg. e = ValueError msg \<and> t \<in> set (flag_tokens v) \<and> t \<notin> fst ` set (ENUM_MAP cls)
               \<and> sublist ([CHR 0x27] @ t @ [CHR 0x27]) msg
               \<and> (\<forall>l \<in> fst ` set (ENUM_MAP cls). sublist l msg)"
    proof (cases ?bad)
      case None
      from none [OF None] e show ?thesis by simp
    next
      case (Some t)
      then have t: "t \<in> set (flag_tokens v)" "t \<notin> fst ` set (ENUM_MAP cls)"
        by (auto simp: find_Some_iff dom)
      from some [OF Some] e have "e = ValueError (?msg t)" by simp
      with t names [of t] lists [of _ t] show ?thesis by blast
    qed
  qed
  have zero: "PSEnumBase_new cls (Text v) = Inr 0"
    if z: "\<forall>t \<in> set (flag_tokens v). ?m t = Some 0"
  proof -
    from z have "?bad = None" by (auto simp: find_None_iff)
    from none [OF this] z show ?thesis by (simp add: foldl_or_zero)
  qed
  from first fails err zero show ?thesis by blast
qed

theorem PSEnumBase_new_flags_witness:
  "IS_FLAGS FileAccess \<and> PSEnumBase_new FileAccess (Text ''Read, Write'') = Inr (1 OR 2)
   \<and> PSEnumBase_new FileAccess (Text ''Read, Wrote'') =
       Inl (ValueError (''Invalid enum flag '' @ [CHR 0x27] @ ''Wrote'' @ [CHR 0x27]
                        @ '', valid flags: None, Read, Write, Execute''))
   \<and> flag_tokens '''' = ['''']
   \<and> PSEnumBase_new FileAccess (Text '''') =
       Inl (ValueError (''Invalid enum flag '' @ [CHR 0x27] @ [CHR 0x27]
                        @ '', valid flags: None, Read, Write, Execute''))
   \<and> map (map_of (ENUM_MAP FileAccess)) (flag_tokens ''None, None'') = [Some 0, Some 0]
   \<and> PSEnumBase_new FileAccess (Text ''None, None'') = Inr 0"
proof -
  have h: "IS_FLAGS FileAccess" by (simp add: FileAccess_def)
  have toks: "flag_tokens ''Read, Write'' = [''Read'', ''Write'']" by code_simp
  have toks2: "flag_tokens ''Read, Wrote'' = [''Read'', ''Wrote'']" by code_simp
  have toks3: "flag_tokens '''' = ['''']" by code_simp
  have toks4: "flag_tokens ''None, None'' = [''None'', ''None'']" by code_simp
  have m: "ENUM_MAP FileAccess = [(''None'', 0), (''Read'', 1), (''Write'', 2), (''Execute'', 4)]"
    by (simp add: FileAccess_def)
  have a: "PSEnumBase_new FileAccess (Text ''Read, Write'') = Inr (1 OR 2)"
    using PSEnumBase_new_flags [OF h, of "''Read, Write''"] by (simp add: toks m)
  have b: "PSEnumBase_new FileAccess (Text ''Read, Wrote'') =
       Inl (ValueError (''Invalid enum flag '' @ [CHR 0x27] @ ''Wrote'' @ [CHR 0x27]
                        @ '', valid flags: None, Read, Write, Execute''))"
    using PSEnumBase_new_flags [OF h, of "''Read, Wrote''"] by (simp add: toks2 m)
  have c: "PSEnumBase_new FileAccess (Text '''') =
       Inl (ValueError (''Invalid enum flag '' @ [CHR 0x27] @ [CHR 0x27]
                        @ '', valid flags: None, Read, Write, Execute''))"
    using PSEnumBase_new_flags [OF h, of "''''"] by (simp add: toks3 m)
  have z: "\<forall>t \<in> set (flag_tokens ''None, None''). map_of (ENUM_MAP FileAccess) t = Some 0"
    by (simp add: toks4 m)
  have z': "map (map_of (ENUM_MAP FileAccess)) (flag_tokens ''None, None'') = [Some 0, Some 0]"
    by (simp add: toks4 m)
  have d: "PSEnumBase_new FileAccess (Text ''None, None'') = Inr 0"
    using PSEnumBase_new_flags [OF h, of "''None, None''"] z by blast
  from h a b toks3 c z' d show ?thesis by (intro conjI)
qed

text \<open>
  C3, as the code computes it. Against the flags class with \<open>None\<close> = 0, \<open>Read\<close> = 1,
  \<open>Write\<close> = 2 and \<open>Execute\<close> = 4, the string \<open>Read, Write\<close> encodes to 3; the
  integer 3 decodes to \<open>Write, Read\<close> and the integer 5 to \<open>Execute, Read\<close>: the
  labels come out with the highest value first, and 5 is covered by \<open>Execute\<close> and
  \<open>Read\<close>, so no remainder is left.
\<close>

theorem FileAccess_scenario:
  "PSEnumBase_new FileAccess (Text ''Read, Write'') = Inr 3
   \<and> PSEnumBase_str FileAccess 3 = Inr ''Write, Read''
   \<and> PSEnumBase_str FileAccess 5 = Inr ''Execute, Read''"
  by code_simp

theorem FileAccess_scenario_witness:
  "PSEnumBase_str FileAccess 5 = Inr ''Execute, Read''"
  using FileAccess_scenario by simp

text \<open>The decoded strings the claim gives for 3 and for 5 are not the ones returned.\<close>

theorem FileAccess_scenario_counterexample:
  "\<not> (PSEnumBase_new FileAccess (Text ''Read, Write'') = Inr 3
      \<and> PSEnumBase_str FileAccess 3 = Inr ''Read, Write''
      \<and> PSEnumBase_str FileAccess 5 = Inr ''Read, 4'')"
  by code_simp

section \<open>The CredSSP trailer: theorems\<close>

lemma gcm_pattern_iff:
  "gcm_pattern s \<longleftrightarrow> (\<exists>a b. s = a @ ''-GCM-'' @ b \<and> LF \<notin> set a \<and> gcm_tail b)"
proof
  assume "gcm_pattern s"
  then have "\<exists>i \<in> set [0..<Suc (length s)].
      LF \<notin> set (take i s) \<and> prefix ''-GCM-'' (drop i s) \<and> gcm_tail (drop (i + 5) s)"
    unfolding gcm_pattern_def list_ex_iff .
  then obtain i where i: "LF \<notin> set (take i s)" "prefix ''-GCM-'' (drop i s)"
      "gcm_tail (drop (i + 5) s)"
    by blast
  from i(2) obtain r where r: "drop i s = ''-GCM-'' @ r" by (auto simp: prefix_def)
  have "drop (i + 5) s = drop 5 (drop i s)" by (simp add: add.commute)
  also have "\<dots> = r" by (simp add: r)
  finally have "drop (i + 5) s = r" .
  moreover have "s = take i s @ ''-GCM-'' @ r" using r by (metis append_take_drop_id)
  ultimately show "\<exists>a b. s = a @ ''-GCM-'' @ b \<and> LF \<notin> set a \<and> gcm_tail b"
    using i(1,3) by metis
next
  assume "\<exists>a b. s = a @ ''-GCM-'' @ b \<and> LF \<notin> set a \<and> gcm_tail b"
  then obtain a b where ab: "s = a @ ''-GCM-'' @ b" "LF \<notin> set a" "gcm_tail b" by blast
  have "length a \<in> set [0..<Suc (length s)]" by (simp add: ab(1))
  moreover have "LF \<notin> set (take (length a) s)" by (simp add: ab)
  moreover have "prefix ''-GCM-'' (drop (length a) s)" by (simp add: ab(1))
  moreover have "gcm_tail (drop (length a + 5) s)" by (simp add: ab(1,3))
  ultimately show "gcm_pattern s" unfolding gcm_pattern_def list_ex_iff by blast
qed

lemma hash_length_spec:
  "(case map_of hash_lengths t of Some n \<Rightarrow> n | None \<Rightarrow> 0) = spec_hash_length t"
  by (simp add: hash_lengths_def spec_hash_length_def)

text \<open>
  C2. The trailer length is a function of the plaintext length and the cipher-suite name
  alone, and it is the value the specification describes: 16 for every name that matches
  the GCM pattern (some \<open>-GCM-\<close>, no newline before it, only word characters after it),
  whatever the length; otherwise \<open>(pre_pad + padding) - plaintext_length\<close>, where the hash
  length is 16 for \<open>MD5\<close>, 20 for \<open>SHA\<close>, 32 for \<open>SHA256\<close>, 48 for \<open>SHA384\<close> and 0
  for any other last token of the name, \<open>pre_pad\<close> is the plaintext length plus the hash
  length, and the padding is 0 when the name contains \<open>RC4\<close>, \<open>8 - pre_pad mod 8\<close> when
  it contains \<open>DES\<close> or \<open>3DES\<close>, and \<open>16 - pre_pad mod 16\<close> otherwise.
\<close>

theorem credssp_trailer_spec:
  "credssp_trailer msg_len suite = spec_trailer msg_len suite
   \<and> (gcm_pattern suite \<longrightarrow> credssp_trailer msg_len suite = 16)
   \<and> (gcm_pattern suite \<longleftrightarrow> (\<exists>a b. suite = a @ ''-GCM-'' @ b \<and> LF \<notin> set a \<and> gcm_tail b))
   \<and> (\<not> gcm_pattern suite \<longrightarrow>
        credssp_trailer msg_len suite =
          (let hash_length = spec_hash_length (last (split suite ''-''));
               pre_pad = msg_len + hash_length;
               padding = (if sublist ''RC4'' suite then 0
                          else if sublist ''3DES'' suite \<or> sublist ''DES'' suite
                            then 8 - pre_pad mod 8
                          else 16 - pre_pad mod 16)
           in (pre_pad + padding) - msg_len))"
proof -
  have a: "credssp_trailer msg_len suite = spec_trailer msg_len suite"
    by (auto simp: credssp_trailer_def spec_trailer_def spec_padding_def hash_length_spec Let_def)
  have b: "gcm_pattern suite \<longrightarrow> credssp_trailer msg_len suite = 16"
    by (simp add: credssp_trailer_def)
  have c: "\<not> gcm_pattern suite \<longrightarrow>
        credssp_trailer msg_len suite =
          (let hash_length = spec_hash_length (last (split suite ''-''));
               pre_pad = msg_len + hash_length;
               padding = (if sublist ''RC4'' suite then 0
                          else if sublist ''3DES'' suite \<or> sublist ''DES'' suite
                            then 8 - pre_pad mod 8
                          else 16 - pre_pad mod 16)
           in (pre_pad + padding) - msg_len)"
    by (auto simp: credssp_trailer_def hash_length_spec Let_def)
  from a b c gcm_pattern_iff [of suite] show ?thesis by (intro conjI)
qed

theorem credssp_trailer_spec_witness:
  "gcm_pattern ''ECDHE-RSA-AES256-GCM-SHA384''
   \<and> credssp_trailer 30 ''ECDHE-RSA-AES256-GCM-SHA384'' = 16
   \<and> gcm_pattern (''-GCM-'' @ [CHR 0xE9])
   \<and> credssp_trailer 30 (''-GCM-'' @ [CHR 0xE9]) = 16
   \<and> \<not> gcm_pattern ''DES-CBC3-SHA''
   \<and> credssp_trailer 30 ''DES-CBC3-SHA'' = 26
   \<and> \<not> gcm_pattern ''A-GCM-SHA-1''
   \<and> credssp_trailer 30 ''A-GCM-SHA-1'' = 2"
proof -
  have g: "gcm_pattern ''ECDHE-RSA-AES256-GCM-SHA384''" by code_simp
  have g2: "gcm_pattern (''-GCM-'' @ [CHR 0xE9])" by code_simp
  have n: "\<not> gcm_pattern ''DES-CBC3-SHA''" by code_simp
  have n2: "\<not> gcm_pattern ''A-GCM-SHA-1''" by code_simp
  have s: "spec_trailer 30 ''DES-CBC3-SHA'' = 26" by code_simp
  have s2: "spec_trailer 30 ''A-GCM-SHA-1'' = 2" by code_simp
  from credssp_trailer_spec [of 30 "''ECDHE-RSA-AES256-GCM-SHA384''"] g
  have a: "credssp_trailer 30 ''ECDHE-RSA-AES256-GCM-SHA384'' = 16" by blast
  from credssp_trailer_spec [of 30 "''-GCM-'' @ [CHR 0xE9]"] g2
  have a2: "credssp_trailer 30 (''-GCM-'' @ [CHR 0xE9]) = 16" by blast
  from credssp_trailer_spec [of 30 "''DES-CBC3-SHA''"] s
  have b: "credssp_trailer 30 ''DES-CBC3-SHA'' = 26" by simp
  from credssp_trailer_spec [of 30 "''A-GCM-SHA-1''"] s2
  have b2: "credssp_trailer 30 ''A-GCM-SHA-1'' = 2" by simp
  from g a g2 a2 n b n2 b2 show ?thesis by (intro conjI)
qed

section \<open>Object metadata: theorems\<close>

text \<open>
  C8, as the code has it. The metadata record that \<open>PSObjectMeta()\<close> creates, and so the
  one every typed value constructed through \<open>PSObject.__init__\<close> carries, has an empty
  type-name sequence (and empty property lists). An enum value initialised by
  \<open>PSEnumBase.__init__\<close> carries the four type names that start with its own type name
  and end with \<open>System.Object\<close>, a non-empty sequence.
\<close>

theorem metadata_type_names:
  "type_names PSObjectMeta_init = []
   \<and> type_names (psobject (PSObject_init v)) = []
   \<and> adapted_properties (psobject (PSObject_init v)) = []
   \<and> extended_properties (psobject (PSObject_init v)) = []
   \<and> type_names (enum_psobject (PSEnumBase_init n type_name base_type)) =
        [type_name, ''System.Enum'', ''System.ValueType'', ''System.Object'']
   \<and> type_names (enum_psobject (PSEnumBase_init n type_name base_type)) \<noteq> []"
  by (simp add: PSObjectMeta_init_def PSObject_init_def PSEnumBase_init_def
      PSEnumObjectMeta_init_def)

theorem metadata_type_names_witness:
  "type_names (psobject (PSObject_init (5::int))) = []
   \<and> type_names (enum_psobject (PSEnumBase_init 3 ''System.IO.FileAccess'' PSInt)) \<noteq> []"
  using metadata_type_names [of "5::int" 3 "''System.IO.FileAccess''" PSInt] by simp

text \<open>A freshly constructed string value carries metadata with no type name.\<close>

theorem metadata_type_names_counterexample:
  "\<not> (type_names (psobject (PSObject_init ''abc'')) \<noteq> [])"
  by (simp add: PSObjectMeta_init_def PSObject_init_def)

text \<open>
  C9. Assigning to the attribute \<open>psobject\<close> of a \<open>PSGuid\<close> succeeds whatever the
  \<open>__setattr__\<close> of the base type does: the value is stored in the instance dictionary,
  where reading \<open>psobject\<close> finds it, and the identifier's value and every other
  attribute are unchanged. Assigning to any other attribute is what the base type's
  \<open>__setattr__\<close> makes of it, which for \<open>UUID\<close> is the \<open>TypeError\<close> of its guard.
\<close>

theorem PSGuid_setattr_psobject:
  "PSGuid_setattr super_setattr self ''psobject'' v =
     Inr (self\<lparr>dict := (dict self)(''psobject'' \<mapsto> v)\<rparr>)
   \<and> (\<forall>self'. PSGuid_setattr super_setattr self ''psobject'' v = Inr self' \<longrightarrow>
         PSGuid_getattr self' ''psobject'' = Some v \<and> uuid_int self' = uuid_int self
         \<and> (\<forall>a. a \<noteq> ''psobject'' \<longrightarrow> PSGuid_getattr self' a = PSGuid_getattr self a))
   \<and> (attr \<noteq> ''psobject'' \<longrightarrow>
         PSGuid_setattr super_setattr self attr v = super_setattr self attr v)
   \<and> (attr \<noteq> ''psobject'' \<longrightarrow>
         PSGuid_setattr UUID_setattr self attr v = Inl (TypeError ''UUID objects are immutable''))"
  by (auto simp: PSGuid_setattr_def PSGuid_getattr_def UUID_setattr_def)

theorem PSGuid_setattr_psobject_witness:
  "PSGuid_setattr UUID_setattr \<lparr>uuid_int = 7, dict = Map.empty\<rparr> ''psobject'' PSObjectMeta_init =
     Inr \<lparr>uuid_int = 7, dict = [''psobject'' \<mapsto> PSObjectMeta_init]\<rparr>
   \<and> ''int'' \<noteq> ''psobject''
   \<and> PSGuid_setattr UUID_setattr \<lparr>uuid_int = 7, dict = Map.empty\<rparr> ''int'' PSObjectMeta_init =
       Inl (TypeError ''UUID objects are immutable'')"
  using PSGuid_setattr_psobject [of UUID_setattr "\<lparr>uuid_int = 7, dict = Map.empty\<rparr>" PSObjectMeta_init "''int''"]
  by (simp add: UUID_setattr_def)

section \<open>Framing: theorems\<close>

lemma range_two: "range 0 16385 16384 = [0, 16384]"
  by (simp add: range.simps)

lemma chunks_16385:
  assumes "length message = 16385"
  shows "chunks message = [take 16384 message, drop 16384 message]"
proof -
  have "take (Suc 0) (drop 16384 message) = drop 16384 message"
    using assms by simp
  then show ?thesis
    by (simp add: chunks_def SIXTEEN_KB_def assms range_two slice_def slice_index_def)
qed

text \<open>
  C5. Under the CredSSP mechanism, a message of exactly 16384 bytes is wrapped as one
  chunk, with the content type \<open>multipart/encrypted\<close>; a message of 16385 bytes is
  wrapped as exactly two chunks, its first 16384 bytes and its last byte, with the content
  type \<open>multipart/x-multi-encrypted\<close>. Under the SPNEGO mechanism every message is
  wrapped as one chunk. In each case the frames of the chunks are followed by the end
  block, and a failure of a chunk's wrap is the failure of the whole.
\<close>

theorem wrap_message_chunking:
  "(protocol self = CREDSSP \<and> length message = 16384 \<longrightarrow>
      wrap_message self message hostname =
        (case priv_wrap_message self message hostname of
           Inl e \<Rightarrow> Inl e
         | Inr chunk \<Rightarrow> Inr (''multipart/encrypted'', chunk @ end_block)))
   \<and> (protocol self = CREDSSP \<and> length message = 16385 \<longrightarrow>
      chunks message = [take 16384 message, drop 16384 message]
      \<and> length (take 16384 message) = 16384 \<and> length (drop 16384 message) = 1
      \<and> wrap_message self message hostname =
        (case priv_wrap_message self (take 16384 message) hostname of
           Inl e \<Rightarrow> Inl e
         | Inr chunk1 \<Rightarrow>
             (case priv_wrap_message self (drop 16384 message) hostname of
                Inl e \<Rightarrow> Inl e
              | Inr chunk2 \<Rightarrow> Inr (''multipart/x-multi-encrypted'', chunk1 @ chunk2 @ end_block))))
   \<and> (protocol self = SPNEGO \<longrightarrow>
      wrap_message self message hostname =
        (case priv_wrap_message self message hostname of
           Inl e \<Rightarrow> Inl e
         | Inr chunk \<Rightarrow> Inr (''multipart/encrypted'', chunk @ end_block)))"
proof (intro conjI impI)
  assume "protocol self = CREDSSP \<and> length message = 16384"
  then show "wrap_message self message hostname =
        (case priv_wrap_message self message hostname of
           Inl e \<Rightarrow> Inl e
         | Inr chunk \<Rightarrow> Inr (''multipart/encrypted'', chunk @ end_block))"
    by (simp add: wrap_message_def SIXTEEN_KB_def end_block_def to_bytes_def split: sum.split)
next
  assume "protocol self = SPNEGO"
  moreover have "SPNEGO \<noteq> CREDSSP" by (simp add: SPNEGO_def CREDSSP_def)
  ultimately show "wrap_message self message hostname =
        (case priv_wrap_message self message hostname of
           Inl e \<Rightarrow> Inl e
         | Inr chunk \<Rightarrow> Inr (''multipart/encrypted'', chunk @ end_block))"
    by (simp add: wrap_message_def end_block_def to_bytes_def split: sum.split)
next
  assume a: "protocol self = CREDSSP \<and> length message = 16385"
  then show "chunks message = [take 16384 message, drop 16384 message]"
    by (simp add: chunks_16385)
  from a show "length (take 16384 message) = 16384" by simp
  from a show "length (drop 16384 message) = 1" by simp
  from a have c: "chunks message = [take 16384 message, drop 16384 message]"
    by (simp add: chunks_16385)
  from a show "wrap_message self message hostname =
        (case priv_wrap_message self (take 16384 message) hostname of
           Inl e \<Rightarrow> Inl e
         | Inr chunk1 \<Rightarrow>
             (case priv_wrap_message self (drop 16384 message) hostname of
                Inl e \<Rightarrow> Inl e
              | Inr chunk2 \<Rightarrow> Inr (''multipart/x-multi-encrypted'', chunk1 @ chunk2 @ end_block)))"
    by (simp add: wrap_message_def SIXTEEN_KB_def c end_block_def to_bytes_def
        split: sum.split)
qed

theorem wrap_message_chunking_witness:
  "protocol echo_credssp = CREDSSP \<and> length (replicate 16384 (CHR ''a'')) = 16384
   \<and> wrap_message echo_credssp (replicate 16384 (CHR ''a'')) ''server'' =
        (case priv_wrap_message echo_credssp (replicate 16384 (CHR ''a'')) ''server'' of
           Inl e \<Rightarrow> Inl e
         | Inr chunk \<Rightarrow> Inr (''multipart/encrypted'', chunk @ end_block))
   \<and> length (replicate 16385 (CHR ''a'')) = 16385
   \<and> chunks (replicate 16385 (CHR ''a'')) = [replicate 16384 (CHR ''a''), ''a'']
   \<and> protocol echo_spnego = SPNEGO
   \<and> wrap_message echo_spnego ''abc'' ''server'' =
        (case priv_wrap_message echo_spnego ''abc'' ''server'' of
           Inl e \<Rightarrow> Inl e
         | Inr chunk \<Rightarrow> Inr (''multipart/encrypted'', chunk @ end_block))"
proof -
  have p: "protocol echo_credssp = CREDSSP" "protocol echo_spnego = SPNEGO"
    by (simp_all add: echo_credssp_def echo_spnego_def WinRMEncryption_init_def)
  have l0: "length (replicate 16384 (CHR ''a'')) = 16384" by simp
  have l: "length (replicate 16385 (CHR ''a'')) = 16385" by simp
  have d: "drop 16384 (replicate 16385 (CHR ''a'')) = ''a''" by simp
  have t: "take 16384 (replicate 16385 (CHR ''a'')) = replicate 16384 (CHR ''a'')" by simp
  from wrap_message_chunking [of echo_credssp "replicate 16384 (CHR ''a'')" "''server''"] p l0
  have one: "wrap_message echo_credssp (replicate 16384 (CHR ''a'')) ''server'' =
        (case priv_wrap_message echo_credssp (replicate 16384 (CHR ''a'')) ''server'' of
           Inl e \<Rightarrow> Inl e
         | Inr chunk \<Rightarrow> Inr (''multipart/encrypted'', chunk @ end_block))"
    by blast
  from wrap_message_chunking [of echo_credssp "replicate 16385 (CHR ''a'')" "''server''"] p l
  have "chunks (replicate 16385 (CHR ''a'')) =
          [take 16384 (replicate 16385 (CHR ''a'')), drop 16384 (replicate 16385 (CHR ''a''))]"
    by blast
  then have c: "chunks (replicate 16385 (CHR ''a'')) = [replicate 16384 (CHR ''a''), ''a'']"
    by (simp only: d t)
  from wrap_message_chunking [of echo_spnego "''abc''" "''server''"] p
  have s: "wrap_message echo_spnego ''abc'' ''server'' =
        (case priv_wrap_message echo_spnego ''abc'' ''server'' of
           Inl e \<Rightarrow> Inl e
         | Inr chunk \<Rightarrow> Inr (''multipart/encrypted'', chunk @ end_block))"
    by blast
  from p l0 one l c s show ?thesis by (intro conjI)
qed

lemma length_end_block: "length end_block = 24"
  by (simp add: end_block_def MIME_BOUNDARY_def CRLF_def)

lemma octet_stream_line_Cons: "octet_stream_line = TAB # tl octet_stream_line"
  by (simp add: octet_stream_line_def)

lemma replace_scan_match:
  "old \<noteq> [] \<Longrightarrow> replace_scan old new (old @ xs) = new @ replace_scan old new xs"
  by (cases old) simp_all

lemma replace_scan_skip:
  "old \<noteq> [] \<Longrightarrow> hd old \<notin> set a \<Longrightarrow>
   replace_scan old new (a @ ys) = a @ replace_scan old new ys"
proof (induction a)
  case Nil
  then show ?case by simp
next
  case (Cons x a)
  from Cons.prems have "\<not> prefix old (x # a @ ys)"
    by (cases old) auto
  with Cons show ?case by simp
qed

lemma replace_scan_length_le:
  "length (replace_scan old [] xs) \<le> length xs"
  by (induction old "[] :: string" xs rule: replace_scan.induct) (auto simp: le_SucI)

lemma replace_scan_shrinks:
  "old \<noteq> [] \<Longrightarrow> sublist old xs \<Longrightarrow> length (replace_scan old [] xs) + length old \<le> length xs"
proof (induction xs)
  case Nil
  then show ?case by simp
next
  case (Cons x xs)
  show ?case
  proof (cases "prefix old (x # xs)")
    case True
    have "length (replace_scan old [] (drop (length old) (x # xs)))
            \<le> length (drop (length old) (x # xs))"
      by (rule replace_scan_length_le)
    moreover have "length old \<le> length (x # xs)" using True by (rule prefix_length_le)
    ultimately show ?thesis using True Cons.prems(1) by simp
  next
    case False
    with Cons.prems have "sublist old xs" by (simp add: sublist_Cons_right)
    with Cons.IH Cons.prems(1) have "length (replace_scan old [] xs) + length old \<le> length xs"
      by simp
    with False show ?thesis by simp
  qed
qed

lemma wrapped_data_of_alt:
  "wrapped_data_of payload =
     replace_scan octet_stream_line []
       (if suffix end_block payload then slice_to payload (int (length payload) - 24)
        else payload)"
  unfolding wrapped_data_of_def to_bytes_def replace_def Let_def end_block_def
    octet_stream_line_def
  by (rule refl)

lemma wrapped_data_of_last:
  "wrapped_data_of (p @ end_block) = replace_scan octet_stream_line [] p"
proof -
  have "suffix end_block (p @ end_block)" by (simp add: suffix_def)
  moreover have "slice_to (p @ end_block) (int (length (p @ end_block)) - 24) = p"
    by (simp add: slice_to_def slice_index_def length_end_block)
  ultimately show ?thesis
    by (simp only: wrapped_data_of_alt if_True)
qed

lemma unwrap_parts_recovered:
  "recovered_chunks self hostname parts = Inr cs \<Longrightarrow>
   unwrap_parts self hostname parts acc =
     (case find length_differs cs of
        Some c \<Rightarrow> Inl (WinRMError (length_mismatch_msg (int (length (snd c))) (fst c)))
      | None \<Rightarrow> Inr (acc @ concat (map snd cs)))"
proof (induction self hostname parts acc arbitrary: cs rule: unwrap_parts.induct)
  case (1 self hostname message)
  then show ?case by simp
next
  case (2 self hostname part message)
  then show ?case by simp
next
  case (3 self hostname part payload rest message)
  from "3.prems" obtain c cs' where
    c: "recover_chunk self hostname part payload = Inr c"
    and cs': "recovered_chunks self hostname rest = Inr cs'"
    and cs: "cs = c # cs'"
    by (auto split: sum.splits)
  obtain expected data where ed: "c = (expected, data)" by (cases c)
  show ?case
  proof (cases "int (length data) = expected")
    case True
    then have nd: "\<not> length_differs c" by (simp add: length_differs_def ed)
    from "3.IH" [OF c ed [symmetric] refl _ cs'] True
    have "unwrap_parts self hostname rest (message @ data) =
            (case find length_differs cs' of
               Some c \<Rightarrow> Inl (WinRMError (length_mismatch_msg (int (length (snd c))) (fst c)))
             | None \<Rightarrow> Inr ((message @ data) @ concat (map snd cs')))"
      by simp
    with True nd show ?thesis
      by (simp add: c ed cs split: option.split)
  next
    case False
    then have d: "length_differs c" by (simp add: length_differs_def ed)
    with False show ?thesis by (simp add: c ed cs)
  qed
qed

section \<open>The round trip of a message: lemmas\<close>

lemma split_scan_match:
  "sep \<noteq> [] \<Longrightarrow> split_scan sep cur (sep @ xs) = cur # split_scan sep [] xs"
  by (cases sep) simp_all

lemma split_scan_skip:
  "\<forall>i < length x. \<not> prefix sep (drop i (x @ ys)) \<Longrightarrow>
   split_scan sep cur (x @ ys) = split_scan sep (cur @ x) ys"
proof (induction x arbitrary: cur)
  case Nil
  then show ?case by simp
next
  case (Cons a x)
  from Cons.prems have "\<not> prefix sep (drop 0 ((a # x) @ ys))" by blast
  then have np: "\<not> prefix sep (a # x @ ys)" by simp
  have "\<forall>i < length x. \<not> prefix sep (drop i (x @ ys))"
  proof (intro allI impI)
    fix i assume "i < length x"
    then have "Suc i < length (a # x)" by simp
    with Cons.prems have "\<not> prefix sep (drop (Suc i) ((a # x) @ ys))" by blast
    then show "\<not> prefix sep (drop i (x @ ys))" by simp
  qed
  from Cons.IH [OF this, of "cur @ [a]"] np show ?case by simp
qed

lemma split_scan_skip_hd:
  assumes "sep \<noteq> []" "hd sep \<notin> set x"
  shows "split_scan sep cur (x @ ys) = split_scan sep (cur @ x) ys"
proof (rule split_scan_skip, intro allI impI)
  fix i assume i: "i < length x"
  then have d: "drop i (x @ ys) = x ! i # drop (Suc i) (x @ ys)"
    by (metis Cons_nth_drop_Suc length_append nth_append trans_less_add1)
  from i assms(2) have "x ! i \<noteq> hd sep" by (metis nth_mem)
  with assms(1) show "\<not> prefix sep (drop i (x @ ys))"
    unfolding d by (cases sep) auto
qed

lemma replace_scan_id:
  "\<not> sublist old xs \<Longrightarrow> replace_scan old new xs = xs"
proof (induction xs)
  case Nil
  then show ?case by simp
next
  case (Cons x xs)
  from Cons.prems have "\<not> prefix old (x # xs)" "\<not> sublist old xs"
    by (auto simp: sublist_Cons_right)
  with Cons.IH show ?case by simp
qed

lemma strip_with_core:
  assumes "b \<noteq> []" "\<not> ws (hd b)" "\<not> ws (last b)"
    and "\<forall>c \<in> set pre. ws c" "\<forall>c \<in> set post. ws c"
  shows "strip_with ws (pre @ b @ post) = b"
proof -
  have "dropWhile ws (pre @ b @ post) = dropWhile ws (b @ post)"
    using assms(4) by (simp add: dropWhile_append2)
  also have "\<dots> = b @ post" using assms(1,2) by (cases b) simp_all
  finally have 1: "dropWhile ws (pre @ b @ post) = b @ post" .
  have "dropWhile ws (rev (b @ post)) = dropWhile ws (rev post @ rev b)" by simp
  also have "\<dots> = dropWhile ws (rev b)"
    by (rule dropWhile_append2) (use assms(5) in auto)
  also have "\<dots> = rev b" using assms(1,3) by (cases "rev b") (auto simp: hd_rev dest: arg_cong [where f = hd])
  finally show ?thesis by (simp add: strip_with_def 1)
qed

lemma digit_char_is_digit: "is_digit (digit_char d)"
proof -
  have "d mod 10 = 0 \<or> d mod 10 = 1 \<or> d mod 10 = 2 \<or> d mod 10 = 3 \<or> d mod 10 = 4
        \<or> d mod 10 = 5 \<or> d mod 10 = 6 \<or> d mod 10 = 7 \<or> d mod 10 = 8 \<or> d mod 10 = 9"
    by arith
  then show ?thesis
    by (auto simp: digit_char_def is_digit_def)
qed

lemma digit_val_digit_char: "d < 10 \<Longrightarrow> digit_val (digit_char d) = d"
proof -
  assume "d < 10"
  then have "d = 0 \<or> d = 1 \<or> d = 2 \<or> d = 3 \<or> d = 4 \<or> d = 5 \<or> d = 6 \<or> d = 7 \<or> d = 8 \<or> d = 9"
    by arith
  then show ?thesis
    by (auto simp: digit_char_def digit_val_def)
qed

lemma str_nat_digits: "list_all is_digit (str_nat n)"
  by (induction n rule: str_nat.induct) (subst str_nat.simps, simp add: digit_char_is_digit)

lemma str_nat_nonempty: "str_nat n \<noteq> []"
  by (subst str_nat.simps) simp

lemma digits_val_snoc: "digits_val (ds @ [d]) = 10 * digits_val ds + digit_val d"
  by (simp add: digits_val_def)

lemma digits_val_str_nat: "digits_val (str_nat n) = n"
proof (induction n rule: str_nat.induct)
  case (1 n)
  show ?case
  proof (cases "n < 10")
    case True
    then show ?thesis
      by (subst str_nat.simps) (simp add: digits_val_def digit_val_digit_char)
  next
    case False
    with 1 have "digits_val (str_nat (n div 10)) = n div 10" by simp
    with False show ?thesis
      by (subst str_nat.simps) (simp add: digits_val_snoc digit_val_digit_char)
  qed
qed

lemma int32_bytes:
  fixes n :: int
  assumes "- 2147483648 \<le> n" "n < 2147483648"
  defines "u \<equiv> n mod 256 + 256 * (n div 256 mod 256) + 65536 * (n div 65536 mod 256)
            + 16777216 * (n div 16777216 mod 256)"
  shows "(if 2147483648 \<le> u then u - 4294967296 else u) = n"
proof -
  define a where "a = n div 256"
  define b where "b = a div 256"
  define c where "c = b div 256"
  define q where "q = c div 256"
  have b': "n div 65536 = b"
    unfolding b_def a_def using zdiv_zmult2_eq [of 256 n 256] by simp
  have c': "n div 16777216 = c"
    unfolding c_def b_def a_def using zdiv_zmult2_eq [of 256 n 256]
      zdiv_zmult2_eq [of 256 n 65536] by simp
  have q': "n div 4294967296 = q"
    unfolding q_def c' [symmetric] using zdiv_zmult2_eq [of 256 n 16777216] by simp
  have e0: "n = n mod 256 + 256 * a" unfolding a_def by simp
  have e1: "a = a mod 256 + 256 * b" unfolding b_def by simp
  have e2: "b = b mod 256 + 256 * c" unfolding c_def by simp
  have e3: "c = c mod 256 + 256 * q" unfolding q_def by simp
  have u: "u = n mod 256 + 256 * (a mod 256) + 65536 * (b mod 256) + 16777216 * (c mod 256)"
    unfolding u_def b' c' a_def [symmetric] ..
  have n: "n = u + 4294967296 * q"
    using e0 e1 e2 e3 u by linarith
  show ?thesis
  proof (cases "0 \<le> n")
    case True
    with assms(2) have "n div 4294967296 = 0" by simp
    with q' n have "u = n" by simp
    with assms(2) show ?thesis by simp
  next
    case False
    with assms(1) have "n div 4294967296 = - 1"
      by (simp add: div_eq_minus1 zdiv_zminus1_eq_if) 
    with q' n have "u = n + 4294967296" by simp
    with assms(1) show ?thesis by simp
  qed
qed

lemma pack_i_unpack_i:
  assumes "pack_i n = Inr b"
  shows "length b = 4 \<and> unpack_i b = Inr n"
proof -
  from assms have r: "- 2147483648 \<le> n" "n < 2147483648"
    and b: "b = [char_of n, char_of (n div 256), char_of (n div 65536), char_of (n div 16777216)]"
    by (auto simp: pack_i_def split: if_splits)
  have "unpack_i b =
      (let u = of_char (char_of n) + 256 * of_char (char_of (n div 256))
               + 65536 * of_char (char_of (n div 65536))
               + 16777216 * of_char (char_of (n div 16777216))
       in Inr (if 2147483648 \<le> u then u - 4294967296 else u))"
    by (simp only: b unpack_i_def list.case)
  also have "\<dots> = Inr n"
    by (simp only: Let_def of_char_of int32_bytes [OF r])
  finally have "unpack_i b = Inr n" .
  moreover have "length b = 4" by (simp add: b)
  ultimately show ?thesis by simp
qed


lemma slice_to_append: "slice_to (a @ b) (int (length a)) = a"
  by (simp add: slice_to_def slice_index_def)

lemma slice_from_append: "slice_from (a @ b) (int (length a)) = b"
  by (simp add: slice_from_def slice_index_def)

lemma slice_middle:
  "slice (a @ h @ w) (int (length a)) (int (length a) + int (length h)) = h"
proof -
  have "slice_index (int (length a) + int (length h)) (length (a @ h @ w)) = length a + length h"
    by (simp add: slice_index_def)
  moreover have "slice_index (int (length a)) (length (a @ h @ w)) = length a"
    by (simp add: slice_index_def)
  ultimately show ?thesis by (simp add: slice_def Let_def)
qed

lemma unwrap_spnego_wrap_spnego:
  assumes "contexts self hostname = Some c" "inverse_context c"
    and "wrap_spnego self data hostname = Inr w"
  shows "unwrap_spnego self w hostname = Inr data"
proof -
  from assms(1,3) obtain header wrapped n where
    g: "wrap_gss c data = Inr (header, wrapped)"
    and n: "pack_i (int (length header)) = Inr n"
    and w: "w = n @ header @ wrapped"
    by (auto simp: wrap_spnego_def split: sum.splits)
  from pack_i_unpack_i [OF n] have len: "length n = 4" and u: "unpack_i n = Inr (int (length header))"
    by simp_all
  from assms(2) g have inv: "unwrap_gss c header wrapped = Inr data"
    by (simp add: inverse_context_def)
  have s1: "slice_to w 4 = n" using slice_to_append [of n "header @ wrapped"] by (simp add: w len)
  have s2: "slice w 4 (4 + int (length header)) = header"
    using slice_middle [of n header wrapped] by (simp add: w len)
  have s3: "slice_from w (4 + int (length header)) = wrapped"
    using slice_from_append [of "n @ header" wrapped] by (simp add: w len)
  show ?thesis
    by (simp add: unwrap_spnego_def assms(1) s1 u s2 s3 inv Let_def)
qed

lemma unwrap_credssp_wrap_credssp:
  assumes "contexts self hostname = Some c" "inverse_context c"
    and "wrap_credssp self data hostname = Inr w"
  shows "unwrap_credssp self w hostname = Inr data"
proof -
  from assms(1,3) obtain wrapped n where
    g: "wrap_tls c data = Inr wrapped"
    and n: "pack_i (credssp_trailer (int (length data)) (get_cipher_name c)) = Inr n"
    and w: "w = n @ wrapped"
    by (auto simp: wrap_credssp_def Let_def split: sum.splits)
  from pack_i_unpack_i [OF n] have len: "length n = 4" by simp
  from assms(2) g have inv: "unwrap_tls c wrapped = Inr data"
    by (simp add: inverse_context_def)
  have s: "slice_from w 4 = wrapped" using slice_from_append [of n wrapped] by (simp add: w len)
  show ?thesis
    by (simp add: unwrap_credssp_def assms(1) s inv)
qed

lemma priv_unwrap_priv_wrap:
  assumes "contexts self hostname = Some c" "inverse_context c"
    and "priv_wrap self data hostname = Inr w"
  shows "priv_unwrap self w hostname = Inr data"
proof (cases "protocol self = SPNEGO")
  case True
  with assms(3) have "wrap_spnego self data hostname = Inr w" by (simp add: priv_wrap_def)
  from unwrap_spnego_wrap_spnego [OF assms(1,2) this] True show ?thesis
    by (simp add: priv_unwrap_def)
next
  case False
  with assms(3) have "wrap_credssp self data hostname = Inr w" by (simp add: priv_wrap_def)
  from unwrap_credssp_wrap_credssp [OF assms(1,2) this] False show ?thesis
    by (simp add: priv_unwrap_def)
qed

lemma str_nat_no_space: "\<forall>c \<in> set (str_nat n). \<not> bytes_space c"
proof -
  have "is_digit c \<Longrightarrow> \<not> bytes_space c" for c
    by (auto simp: is_digit_def bytes_space_def)
  with str_nat_digits [of n] show ?thesis by (auto simp: list_all_iff)
qed

lemma strip_bytes_str_nat: "strip_bytes (str_nat n) = str_nat n"
proof -
  have ne: "str_nat n \<noteq> []" by (rule str_nat_nonempty)
  then have "hd (str_nat n) \<in> set (str_nat n)" "last (str_nat n) \<in> set (str_nat n)"
    by simp_all
  with str_nat_no_space [of n]
  have "\<not> bytes_space (hd (str_nat n))" "\<not> bytes_space (last (str_nat n))" by blast+
  with strip_with_core [OF ne, of bytes_space "[]" "[]"] show ?thesis
    by (simp add: strip_bytes_def)
qed

lemma int_of_bytes_str_nat: "int_of_bytes (str_nat n) = Some (int n)"
proof -
  let ?s = "str_nat n"
  have ne: "?s \<noteq> []" by (rule str_nat_nonempty)
  have dig: "\<forall>c \<in> set ?s. is_digit c" using str_nat_digits [of n] by (simp add: list_all_iff)
  from ne have hd: "hd ?s \<in> set ?s" and la: "last ?s \<in> set ?s" by simp_all
  have nosign: "\<not> is_digit (CHR ''-'')" "\<not> is_digit (CHR ''+'')" "\<not> is_digit (CHR ''_'')"
    by (simp_all add: is_digit_def)
  from dig hd nosign have h1: "hd ?s \<noteq> CHR ''-''" "hd ?s \<noteq> CHR ''+''" by metis+
  have nounder: "CHR ''_'' \<notin> set ?s" using dig nosign(3) by blast
  have "\<not> sublist ''__'' ?s"
  proof
    assume "sublist ''__'' ?s"
    then have "set ''__'' \<subseteq> set ?s" by (rule set_mono_sublist)
    with nounder show False by simp
  qed
  with ne dig hd la have valid: "valid_literal ?s"
    by (simp add: valid_literal_def list_all_iff)
  have filt: "filter is_digit ?s = ?s" using dig by (simp add: filter_id_conv)
  show ?thesis
    by (simp add: int_of_bytes_def strip_bytes_str_nat Let_def ne h1 valid filt digits_val_str_nat)
qed

lemma header_lines_eq:
  "header_lines proto n = [TAB] @ (header_prefix proto @ ''Length='' @ str_nat n) @ CRLF"
  by (simp add: header_lines_def header_prefix_def str_int_def)

lemma strip_header_lines:
  "strip_bytes (header_lines proto n) = header_prefix proto @ ''Length='' @ str_nat n"
proof -
  let ?b = "header_prefix proto @ ''Length='' @ str_nat n"
  have ne: "?b \<noteq> []" by (simp add: header_prefix_def)
  have h: "\<not> bytes_space (hd ?b)" by (simp add: header_prefix_def bytes_space_def)
  have "last ?b = last (str_nat n)" using str_nat_nonempty [of n] by simp
  moreover have "last (str_nat n) \<in> set (str_nat n)" using str_nat_nonempty [of n] by simp
  ultimately have l: "\<not> bytes_space (last ?b)" using str_nat_no_space [of n] by metis
  have pre: "\<forall>c \<in> set [TAB]. bytes_space c" by (simp add: TAB_def bytes_space_def)
  have post: "\<forall>c \<in> set CRLF. bytes_space c" by (simp add: CRLF_def CR_def LF_def bytes_space_def)
  from strip_with_core [OF ne h l pre post] show ?thesis
    by (simp only: strip_bytes_def header_lines_eq)
qed

lemma no_L_in_prefix:
  "proto = SPNEGO \<or> proto = CREDSSP \<Longrightarrow> CHR ''L'' \<notin> set (header_prefix proto)"
  by (auto simp: header_prefix_def SPNEGO_def CREDSSP_def CRLF_def CR_def LF_def TAB_def)

lemma expected_length_of_header:
  assumes "proto = SPNEGO \<or> proto = CREDSSP"
  shows "expected_length_of (strip_bytes (header_lines proto n)) = Inr (int n)"
proof -
  have sep: "''Length='' \<noteq> []" "hd ''Length='' = CHR ''L''" by simp_all
  have noL: "CHR ''L'' \<notin> set (str_nat n)"
  proof
    assume "CHR ''L'' \<in> set (str_nat n)"
    with str_nat_digits [of n] have "is_digit (CHR ''L'')" by (simp add: list_all_iff)
    then show False by (simp add: is_digit_def)
  qed
  have "split (header_prefix proto @ ''Length='' @ str_nat n) ''Length=''
          = split_scan ''Length='' (header_prefix proto) (''Length='' @ str_nat n)"
    using split_scan_skip_hd [of "''Length=''" "header_prefix proto" "[]" "''Length='' @ str_nat n"]
      no_L_in_prefix [OF assms]
    by (simp add: split_def)
  also have "\<dots> = header_prefix proto # split_scan ''Length='' [] (str_nat n)"
    by (rule split_scan_match) simp
  also have "split_scan ''Length='' [] (str_nat n) = split_scan ''Length='' (str_nat n) []"
    using split_scan_skip_hd [of "''Length=''" "str_nat n" "[]" "[]"] noL by simp
  finally have "split (header_prefix proto @ ''Length='' @ str_nat n) ''Length=''
                  = [header_prefix proto, str_nat n]" by simp
  then show ?thesis
    by (simp add: expected_length_of_def strip_header_lines int_of_bytes_str_nat)
qed

lemma suffix_end_block_payload:
  assumes "suffix end_block (octet_stream_line @ w)"
  shows "suffix end_block w"
proof (rule ccontr)
  assume ns: "\<not> suffix end_block w"
  from assms obtain xs where xs: "end_block = xs @ w" "suffix xs octet_stream_line"
    using ns by (auto simp: suffix_append)
  from xs(1) ns have ne: "xs \<noteq> []" by (auto simp: suffix_def)
  from xs(2) obtain ys where ys: "octet_stream_line = ys @ xs" by (auto simp: suffix_def)
  have "last (ys @ xs) = last xs" using ne by simp
  then have "last xs = last octet_stream_line" by (simp only: ys)
  then have lf: "last xs = LF" by (simp add: octet_stream_line_def CRLF_def)
  show False
  proof (cases "w = []")
    case True
    with xs have "suffix end_block octet_stream_line" by simp
    moreover have "\<not> suffix end_block octet_stream_line" by code_simp
    ultimately show False by contradiction
  next
    case False
    then have "butlast end_block = xs @ butlast w" by (simp add: xs(1) butlast_append)
    with ne have "last xs \<in> set (butlast end_block)" by simp
    with lf have "LF \<in> set (butlast end_block)" by simp
    moreover have "LF \<notin> set (butlast end_block)" by code_simp
    ultimately show False by contradiction
  qed
qed

lemma wrapped_data_of_last_chunk:
  assumes "\<not> sublist octet_stream_line w"
  shows "wrapped_data_of (octet_stream_line @ w @ end_block) = w"
proof -
  have ne: "octet_stream_line \<noteq> []" by (simp add: octet_stream_line_def)
  have "wrapped_data_of (octet_stream_line @ w @ end_block)
          = replace_scan octet_stream_line [] (octet_stream_line @ w)"
    using wrapped_data_of_last [of "octet_stream_line @ w"] by simp
  also have "\<dots> = replace_scan octet_stream_line [] w"
    using replace_scan_match [OF ne, of "[]" w] by simp
  also have "\<dots> = w" using assms by (rule replace_scan_id)
  finally show ?thesis .
qed

lemma wrapped_data_of_inner_chunk:
  assumes "\<not> sublist octet_stream_line w" "\<not> suffix end_block w"
  shows "wrapped_data_of (octet_stream_line @ w) = w"
proof -
  have ne: "octet_stream_line \<noteq> []" by (simp add: octet_stream_line_def)
  from assms(2) have "\<not> suffix end_block (octet_stream_line @ w)"
    using suffix_end_block_payload by blast
  then have "wrapped_data_of (octet_stream_line @ w)
          = replace_scan octet_stream_line [] (octet_stream_line @ w)"
    by (simp only: wrapped_data_of_alt if_False)
  also have "\<dots> = replace_scan octet_stream_line [] w"
    using replace_scan_match [OF ne, of "[]" w] by simp
  also have "\<dots> = w" using assms(1) by (rule replace_scan_id)
  finally show ?thesis .
qed

lemma recover_chunk_last:
  assumes "protocol self = SPNEGO \<or> protocol self = CREDSSP"
    and "contexts self hostname = Some c" "inverse_context c"
    and "priv_wrap self chunk hostname = Inr w"
    and "\<not> sublist octet_stream_line w"
  shows "recover_chunk self hostname (header_lines (protocol self) (length chunk))
           (octet_stream_line @ w @ end_block) = Inr (int (length chunk), chunk)"
  by (simp add: recover_chunk_def expected_length_of_header [OF assms(1)]
      wrapped_data_of_last_chunk [OF assms(5)] priv_unwrap_priv_wrap [OF assms(2,3,4)])

lemma recover_chunk_inner:
  assumes "protocol self = SPNEGO \<or> protocol self = CREDSSP"
    and "contexts self hostname = Some c" "inverse_context c"
    and "priv_wrap self chunk hostname = Inr w"
    and "\<not> sublist octet_stream_line w" "\<not> suffix end_block w"
  shows "recover_chunk self hostname (header_lines (protocol self) (length chunk))
           (octet_stream_line @ w) = Inr (int (length chunk), chunk)"
  by (simp add: recover_chunk_def expected_length_of_header [OF assms(1)]
      wrapped_data_of_inner_chunk [OF assms(5,6)] priv_unwrap_priv_wrap [OF assms(2,3,4)])

lemma priv_wrap_message_frame:
  assumes "priv_wrap_message self chunk hostname = Inr f"
  shows "\<exists>w. priv_wrap self chunk hostname = Inr w \<and> f = frame (protocol self) (chunk, w)"
proof -
  from assms obtain w where w: "priv_wrap self chunk hostname = Inr w"
    by (auto simp: priv_wrap_message_def Let_def split: sum.splits)
  with assms have "f = frame (protocol self) (chunk, w)"
    by (simp add: priv_wrap_message_def Let_def frame_def header_lines_def boundary_line_def
        octet_stream_line_def to_bytes_def)
  with w show ?thesis by blast
qed

lemma wrap_chunks_frames:
  "wrap_chunks self hostname cs acc = Inr out \<Longrightarrow>
   \<exists>fs. map fst fs = cs \<and> (\<forall>cw \<in> set fs. priv_wrap self (fst cw) hostname = Inr (snd cw))
        \<and> out = acc @ concat (map (frame (protocol self)) fs)"
proof (induction cs arbitrary: acc)
  case Nil
  then show ?case by simp
next
  case (Cons chunk cs)
  from Cons.prems obtain f where f: "priv_wrap_message self chunk hostname = Inr f"
    and rest: "wrap_chunks self hostname cs (acc @ f) = Inr out"
    by (auto split: sum.splits)
  from priv_wrap_message_frame [OF f] obtain w where
    w: "priv_wrap self chunk hostname = Inr w" and fr: "f = frame (protocol self) (chunk, w)"
    by blast
  from Cons.IH [OF rest] obtain fs where fs: "map fst fs = cs"
    "\<forall>cw \<in> set fs. priv_wrap self (fst cw) hostname = Inr (snd cw)"
    "out = (acc @ f) @ concat (map (frame (protocol self)) fs)"
    by blast
  let ?fs = "(chunk, w) # fs"
  have "map fst ?fs = chunk # cs" using fs(1) by simp
  moreover have "\<forall>cw \<in> set ?fs. priv_wrap self (fst cw) hostname = Inr (snd cw)"
    using fs(2) w by simp
  moreover have "out = acc @ concat (map (frame (protocol self)) ?fs)"
    using fs(3) fr by simp
  ultimately show ?case by (intro exI [of _ ?fs] conjI)
qed

lemma wrap_message_frames:
  assumes "wrap_message self message hostname = Inr (content_type, framed)"
  shows "\<exists>fs. map fst fs = message_chunks self message
        \<and> (\<forall>cw \<in> set fs. priv_wrap self (fst cw) hostname = Inr (snd cw))
        \<and> framed = concat (map (frame (protocol self)) fs) @ end_block"
proof (cases "protocol self = CREDSSP \<and> length message > SIXTEEN_KB")
  case True
  with assms obtain out where out: "wrap_chunks self hostname (chunks message) [] = Inr out"
    and fr: "framed = out @ end_block"
    by (auto simp: wrap_message_def end_block_def to_bytes_def split: sum.splits)
  from wrap_chunks_frames [OF out] obtain fs where "map fst fs = chunks message"
    "\<forall>cw \<in> set fs. priv_wrap self (fst cw) hostname = Inr (snd cw)"
    "out = concat (map (frame (protocol self)) fs)"
    by auto
  with True fr show ?thesis by (auto simp: message_chunks_def)
next
  case False
  with assms obtain f where f: "priv_wrap_message self message hostname = Inr f"
    and fr: "framed = f @ end_block"
    by (auto simp: wrap_message_def end_block_def to_bytes_def split: sum.splits if_splits)
  from priv_wrap_message_frame [OF f] obtain w where
    w: "priv_wrap self message hostname = Inr w" and ff: "f = frame (protocol self) (message, w)"
    by blast
  let ?fs = "[(message, w)]"
  have "message_chunks self message = [message]"
    by (simp only: message_chunks_def if_not_P [OF False])
  then have "map fst ?fs = message_chunks self message" by simp
  moreover have "\<forall>cw \<in> set ?fs. priv_wrap self (fst cw) hostname = Inr (snd cw)" using w by simp
  moreover have "framed = concat (map (frame (protocol self)) ?fs) @ end_block"
    using fr ff by simp
  ultimately show ?thesis by (intro exI [of _ ?fs] conjI)
qed

lemma boundary_line_Cons: "\<exists>r. boundary_line = CHR ''-'' # CHR ''-'' # r"
  by (simp add: boundary_line_def MIME_BOUNDARY_def)

lemma dash_free_no_boundary:
  "dash_free x \<Longrightarrow> i < length x \<Longrightarrow> \<not> prefix boundary_line (drop i (x @ ys))"
proof (induction x arbitrary: i rule: dash_free.induct)
  case 1
  then show ?case by simp
next
  case (2 c)
  from boundary_line_Cons obtain r where r: "boundary_line = CHR ''-'' # CHR ''-'' # r" by blast
  from 2 show ?case by (simp add: r)
next
  case (3 c d rest)
  from boundary_line_Cons obtain r where r: "boundary_line = CHR ''-'' # CHR ''-'' # r" by blast
  show ?case
  proof (cases i)
    case 0
    with "3.prems" show ?thesis by (auto simp: r)
  next
    case (Suc j)
    with "3.prems" have "dash_free (d # rest)" "j < length (d # rest)" by simp_all
    from "3.IH" [OF this] Suc show ?thesis by simp
  qed
qed

lemma dash_free_append: "dash_free x \<Longrightarrow> dash_free y \<Longrightarrow> dash_free (x @ y)"
proof (induction x rule: dash_free.induct)
  case 1
  then show ?case by simp
next
  case (2 c)
  then show ?case by (cases y) simp_all
next
  case (3 c d r)
  then show ?case by simp
qed

lemma dash_free_no_dash: "CHR ''-'' \<notin> set x \<Longrightarrow> dash_free x"
  by (induction x rule: dash_free.induct) auto

lemma dash_free_str_nat: "dash_free (str_nat n)"
proof (rule dash_free_no_dash)
  show "CHR ''-'' \<notin> set (str_nat n)"
  proof
    assume "CHR ''-'' \<in> set (str_nat n)"
    with str_nat_digits [of n] have "is_digit (CHR ''-'')" by (simp add: list_all_iff)
    then show False by (simp add: is_digit_def)
  qed
qed

lemma dash_free_octet_stream_line: "dash_free octet_stream_line"
  by (simp add: octet_stream_line_def TAB_def CRLF_def CR_def LF_def)

lemma dash_free_header_lines:
  assumes "proto = SPNEGO \<or> proto = CREDSSP"
  shows "dash_free (header_lines proto n)"
proof -
  let ?a = "TAB # ''Content-Type: '' @ proto @ CRLF
     @ TAB # ''OriginalContent: type=application/soap+xml;charset=UTF-8;Length=''"
  have a: "dash_free ?a"
    using assms by (auto simp: SPNEGO_def CREDSSP_def TAB_def CRLF_def CR_def LF_def)
  have c: "dash_free CRLF" by (simp add: CRLF_def CR_def LF_def)
  have "header_lines proto n = ?a @ str_nat n @ CRLF"
    by (simp add: header_lines_def str_int_def)
  with dash_free_append [OF a dash_free_append [OF dash_free_str_nat c]] show ?thesis by simp
qed

lemma prefix_short: "prefix a (x @ y) \<Longrightarrow> length a \<le> length x \<Longrightarrow> prefix a x"
  by (auto simp: prefix_append)

lemma boundary_overlap:
  "list_all (\<lambda>k. \<not> prefix (take 2 (drop k boundary_line)) MIME_BOUNDARY) [1..<length boundary_line]"
  by code_simp

lemma no_boundary_across:
  assumes "\<not> sublist boundary_line w" "i < length w"
  shows "\<not> prefix boundary_line (drop i (w @ MIME_BOUNDARY @ t))"
proof
  assume p: "prefix boundary_line (drop i (w @ MIME_BOUNDARY @ t))"
  let ?p = "drop i w"
  from assms(2) have pne: "?p \<noteq> []" by simp
  from p assms(2) have "prefix boundary_line (?p @ MIME_BOUNDARY @ t)" by simp
  then consider "prefix boundary_line ?p"
    | us where "boundary_line = ?p @ us" "prefix us (MIME_BOUNDARY @ t)"
    by (auto simp: prefix_append)
  then show False
  proof cases
    case 1
    then have "sublist boundary_line ?p" by (rule prefix_imp_sublist)
    then have "sublist boundary_line w" by (metis sublist_drop sublist_order.order_trans)
    with assms(1) show False by contradiction
  next
    case 2
    let ?k = "length ?p"
    have us: "us = drop ?k boundary_line" using 2(1) by (metis append_eq_conv_conj)
    have k: "1 \<le> ?k" using pne by (simp add: Suc_leI)
    show False
    proof (cases "us = []")
      case True
      with 2(1) have "prefix boundary_line ?p" by simp
      then have "sublist boundary_line ?p" by (rule prefix_imp_sublist)
      then have "sublist boundary_line w" by (metis sublist_drop sublist_order.order_trans)
      with assms(1) show False by contradiction
    next
      case False
      with us have k2: "?k < length boundary_line" by simp
      from k k2 have "?k \<in> set [1..<length boundary_line]" by simp
      moreover from boundary_overlap
      have "\<forall>k \<in> set [1..<length boundary_line].
              \<not> prefix (take 2 (drop k boundary_line)) MIME_BOUNDARY"
        by (simp only: list_all_iff)
      ultimately have n: "\<not> prefix (take 2 (drop ?k boundary_line)) MIME_BOUNDARY"
        by blast
      have "prefix (take 2 us) us" by (rule take_is_prefix)
      with 2(2) have "prefix (take 2 us) (MIME_BOUNDARY @ t)"
        using prefix_order.trans by blast
      moreover have "length (take 2 us) \<le> length MIME_BOUNDARY" by (simp add: MIME_BOUNDARY_def)
      ultimately have "prefix (take 2 us) MIME_BOUNDARY" by (rule prefix_short)
      with n us show False by simp
    qed
  qed
qed

lemma end_block_no_boundary:
  "i < length end_block \<Longrightarrow> \<not> prefix boundary_line (drop i end_block)"
proof -
  have "list_all (\<lambda>i. \<not> prefix boundary_line (drop i end_block)) [0..<length end_block]"
    by code_simp
  then show "i < length end_block \<Longrightarrow> \<not> prefix boundary_line (drop i end_block)"
    by (simp add: list_all_iff)
qed

lemma frames_start:
  "\<exists>t. concat (map (frame proto) fs) @ end_block = MIME_BOUNDARY @ t"
  by (cases fs) (simp_all add: end_block_def frame_def boundary_line_def)

lemma split_scan_frames:
  assumes "proto = SPNEGO \<or> proto = CREDSSP"
    and "\<forall>cw \<in> set fs. \<not> sublist boundary_line (snd cw)"
  shows "split_scan boundary_line cur (concat (map (frame proto) fs) @ end_block)
           = tail_parts proto cur fs"
  using assms(2)
proof (induction fs arbitrary: cur)
  case Nil
  have "split_scan boundary_line cur (end_block @ []) = split_scan boundary_line (cur @ end_block) []"
    by (rule split_scan_skip) (simp add: end_block_no_boundary)
  then show ?case by simp
next
  case (Cons cw fs)
  let ?H = "header_lines proto (length (fst cw))"
  let ?w = "snd cw"
  let ?rest = "concat (map (frame proto) fs) @ end_block"
  have bne: "boundary_line \<noteq> []" by (simp add: boundary_line_def MIME_BOUNDARY_def)
  from frames_start [of proto fs] obtain t where t: "?rest = MIME_BOUNDARY @ t" by blast
  from Cons.prems have nb: "\<not> sublist boundary_line ?w"
    and rest: "\<forall>cw \<in> set fs. \<not> sublist boundary_line (snd cw)" by simp_all
  have "concat (map (frame proto) (cw # fs)) @ end_block
          = boundary_line @ ?H @ boundary_line @ octet_stream_line @ ?w @ ?rest"
    by (simp add: frame_def)
  then have "split_scan boundary_line cur (concat (map (frame proto) (cw # fs)) @ end_block)
          = cur # split_scan boundary_line [] (?H @ boundary_line @ octet_stream_line @ ?w @ ?rest)"
    by (simp only: split_scan_match [OF bne])
  also have "split_scan boundary_line [] (?H @ boundary_line @ octet_stream_line @ ?w @ ?rest)
          = split_scan boundary_line ([] @ ?H) (boundary_line @ octet_stream_line @ ?w @ ?rest)"
    by (rule split_scan_skip)
      (intro allI impI, rule dash_free_no_boundary [OF dash_free_header_lines [OF assms(1)]])
  also have "\<dots> = ?H # split_scan boundary_line [] (octet_stream_line @ ?w @ ?rest)"
    by (simp only: append_Nil split_scan_match [OF bne])
  also have "split_scan boundary_line [] (octet_stream_line @ ?w @ ?rest)
          = split_scan boundary_line ([] @ octet_stream_line) (?w @ ?rest)"
    by (rule split_scan_skip)
      (intro allI impI, rule dash_free_no_boundary [OF dash_free_octet_stream_line])
  also have "\<dots> = split_scan boundary_line (([] @ octet_stream_line) @ ?w) ?rest"
    unfolding t by (rule split_scan_skip) (intro allI impI, rule no_boundary_across [OF nb])
  also have "\<dots> = tail_parts proto (octet_stream_line @ ?w) fs"
    using Cons.IH [OF rest, of "octet_stream_line @ ?w"] by simp
  finally show ?case by simp
qed

lemma header_lines_nonempty: "header_lines proto n \<noteq> []"
  by (simp add: header_lines_def)

lemma tail_parts_nonempty:
  "cur \<noteq> [] \<Longrightarrow> filter (\<lambda>p. p \<noteq> []) (tail_parts proto cur fs) = tail_parts proto cur fs"
proof (induction fs arbitrary: cur)
  case Nil
  then show ?case by simp
next
  case (Cons cw fs)
  have "octet_stream_line @ snd cw \<noteq> []" by (simp add: octet_stream_line_def)
  from Cons.IH [OF this] Cons.prems show ?case by (simp add: header_lines_nonempty)
qed

lemma unwrap_parts_tail_parts:
  assumes "protocol self = SPNEGO \<or> protocol self = CREDSSP"
    and "contexts self hostname = Some c" "inverse_context c"
  shows "priv_wrap self c0 hostname = Inr w0 \<Longrightarrow> \<not> sublist octet_stream_line w0 \<Longrightarrow>
     \<forall>cw \<in> set fs. priv_wrap self (fst cw) hostname = Inr (snd cw)
                   \<and> \<not> sublist octet_stream_line (snd cw) \<Longrightarrow>
     \<forall>cw \<in> set (butlast ((c0, w0) # fs)). \<not> suffix end_block (snd cw) \<Longrightarrow>
     unwrap_parts self hostname
       (header_lines (protocol self) (length c0)
          # tail_parts (protocol self) (octet_stream_line @ w0) fs) acc
       = Inr (acc @ c0 @ concat (map fst fs))"
proof (induction fs arbitrary: c0 w0 acc)
  case Nil
  from recover_chunk_last [OF assms Nil(1,2)] show ?case by simp
next
  case (Cons cw fs)
  obtain c1 w1 where cw: "cw = (c1, w1)" by (cases cw)
  from Cons.prems(4) have ns: "\<not> suffix end_block w0" by simp
  from Cons.prems(3) have w1: "priv_wrap self c1 hostname = Inr w1"
    and s1: "\<not> sublist octet_stream_line w1"
    and rest: "\<forall>cw \<in> set fs. priv_wrap self (fst cw) hostname = Inr (snd cw)
                   \<and> \<not> sublist octet_stream_line (snd cw)"
    by (simp_all add: cw)
  from Cons.prems(4) have bl: "\<forall>cw \<in> set (butlast ((c1, w1) # fs)). \<not> suffix end_block (snd cw)"
    by (simp add: cw)
  from Cons.IH [OF w1 s1 rest bl, of "acc @ c0"]
  have ih: "unwrap_parts self hostname
       (header_lines (protocol self) (length c1)
          # tail_parts (protocol self) (octet_stream_line @ w1) fs) (acc @ c0)
       = Inr ((acc @ c0) @ c1 @ concat (map fst fs))" .
  from recover_chunk_inner [OF assms Cons.prems(1,2) ns] ih show ?case
    by (simp add: cw)
qed

lemma concat_chunks_from:
  "0 < s \<Longrightarrow>
   concat (map (\<lambda>i. slice m (int i) (int (i + s))) (range i (length m) s)) = drop i m"
proof (induction i "length m" s rule: range.induct)
  case (1 start step)
  show ?case
  proof (cases "length m \<le> start")
    case True
    then show ?thesis by (subst range.simps) simp
  next
    case False
    with "1.prems" have go: "\<not> (step = 0 \<or> length m \<le> start)" by simp
    from "1.hyps" [OF go "1.prems"]
    have ih: "concat (map (\<lambda>i. slice m (int i) (int (i + step))) (range (start + step) (length m) step))
                = drop (start + step) m" .
    have lo: "slice_index (int start) (length m) = start"
      using False by (simp add: slice_index_def)
    have hi: "slice_index (int (start + step)) (length m) = min (start + step) (length m)"
      unfolding slice_index_def by (simp only: nat_int) simp
    have "take (min (start + step) (length m) - start) (drop start m) = take step (drop start m)"
      by (cases "start + step \<le> length m") (simp_all add: min_def)
    then have sl: "slice m (int start) (int (start + step)) = take step (drop start m)"
      by (simp only: slice_def Let_def lo hi)
    have "take step (drop start m) @ drop (start + step) m = drop start m"
      by (metis add.commute append_take_drop_id drop_drop)
    with ih sl go show ?thesis by (subst range.simps) simp
  qed
qed

lemma concat_message_chunks: "concat (message_chunks self message) = message"
  using concat_chunks_from [of SIXTEEN_KB message 0]
  by (simp add: message_chunks_def chunks_def SIXTEEN_KB_def)

text \<open>
  C1, as the code has it. For either mechanism and a host whose context's unwrap
  operations undo its wrap operations: if \<open>wrap_message\<close> returns a framed envelope for
  a message, and the bytes that the mechanism's wrap emitted for each chunk of the message
  contain neither the boundary line nor the octet-stream line, and those of each chunk but
  the last do not end with the end block, then \<open>unwrap_message\<close> of the envelope
  returns exactly the message. The message may have any length.
\<close>

theorem unwrap_wrap_message:
  assumes "protocol self = SPNEGO \<or> protocol self = CREDSSP"
    and "contexts self hostname = Some c" and "inverse_context c"
    and "wrap_message self message hostname = Inr (content_type, framed)"
    and "\<forall>chunk \<in> set (message_chunks self message). \<forall>w.
           priv_wrap self chunk hostname = Inr w \<longrightarrow>
           \<not> sublist boundary_line w \<and> \<not> sublist octet_stream_line w"
    and "\<forall>chunk \<in> set (butlast (message_chunks self message)). \<forall>w.
           priv_wrap self chunk hostname = Inr w \<longrightarrow> \<not> suffix end_block w"
  shows "unwrap_message self framed hostname = Inr message"
proof -
  from wrap_message_frames [OF assms(4)] obtain fs where
    fst: "map fst fs = message_chunks self message"
    and wr: "\<forall>cw \<in> set fs. priv_wrap self (fst cw) hostname = Inr (snd cw)"
    and fr: "framed = concat (map (frame (protocol self)) fs) @ end_block"
    by blast
  have mem: "fst cw \<in> set (message_chunks self message)" if "cw \<in> set fs" for cw
    using that fst by (metis image_eqI set_map)
  have safe: "\<not> sublist boundary_line (snd cw) \<and> \<not> sublist octet_stream_line (snd cw)"
    if "cw \<in> set fs" for cw
    using assms(5) mem [OF that] wr that by blast
  have inner: "\<not> suffix end_block (snd cw)" if "cw \<in> set (butlast fs)" for cw
  proof -
    from that have "fst cw \<in> set (map fst (butlast fs))" by simp
    then have "fst cw \<in> set (butlast (message_chunks self message))"
      by (simp only: map_butlast fst)
    moreover from that have "cw \<in> set fs" by (rule in_set_butlastD)
    ultimately show ?thesis using assms(6) wr by blast
  qed
  have "message_chunks self message \<noteq> []"
  proof
    assume "message_chunks self message = []"
    then have "concat (message_chunks self message) = []" by simp
    then have "message = []" by (simp only: concat_message_chunks)
    then have "message_chunks self message = [message]"
      by (simp add: message_chunks_def SIXTEEN_KB_def)
    with \<open>message_chunks self message = []\<close> show False by simp
  qed
  with fst obtain c0 w0 fs' where fs: "fs = (c0, w0) # fs'"
    by (cases fs) auto
  have bl: "\<forall>cw \<in> set fs. \<not> sublist boundary_line (snd cw)" using safe by blast
  have parts: "split_scan boundary_line [] framed = tail_parts (protocol self) [] fs"
    unfolding fr by (rule split_scan_frames [OF assms(1) bl])
  have "envelope_parts framed = filter (\<lambda>p. p \<noteq> []) (tail_parts (protocol self) [] fs)"
    by (simp add: envelope_parts_def split_def to_bytes_def boundary_line_def [symmetric] parts)
  also have "\<dots> = header_lines (protocol self) (length c0)
                   # filter (\<lambda>p. p \<noteq> []) (tail_parts (protocol self) (octet_stream_line @ w0) fs')"
    by (simp add: fs header_lines_nonempty)
  also have "filter (\<lambda>p. p \<noteq> []) (tail_parts (protocol self) (octet_stream_line @ w0) fs')
               = tail_parts (protocol self) (octet_stream_line @ w0) fs'"
    by (rule tail_parts_nonempty) (simp add: octet_stream_line_def)
  finally have ep: "envelope_parts framed = header_lines (protocol self) (length c0)
                   # tail_parts (protocol self) (octet_stream_line @ w0) fs'" .
  have w0: "priv_wrap self c0 hostname = Inr w0" using wr by (simp add: fs)
  have s0: "\<not> sublist octet_stream_line w0" using safe [of "(c0, w0)"] by (simp add: fs)
  have rest: "\<forall>cw \<in> set fs'. priv_wrap self (fst cw) hostname = Inr (snd cw)
                   \<and> \<not> sublist octet_stream_line (snd cw)"
    using wr safe by (simp add: fs)
  have bl': "\<forall>cw \<in> set (butlast ((c0, w0) # fs')). \<not> suffix end_block (snd cw)"
    using inner by (simp only: fs [symmetric]) blast
  from unwrap_parts_tail_parts [OF assms(1,2,3) w0 s0 rest bl', of "[]"]
  have "unwrap_message self framed hostname = Inr (c0 @ concat (map fst fs'))"
    by (simp add: unwrap_message_def ep)
  also have "c0 @ concat (map fst fs') = concat (map fst fs)" by (simp add: fs)
  also have "\<dots> = message" by (simp only: fst concat_message_chunks)
  finally show ?thesis .
qed

lemma inverse_echo_context: "inverse_context echo_context"
  by (auto simp: inverse_context_def echo_context_def)

theorem unwrap_wrap_message_witness:
  "(protocol echo_credssp = SPNEGO \<or> protocol echo_credssp = CREDSSP)
   \<and> contexts echo_credssp ''server'' = Some echo_context
   \<and> inverse_context echo_context
   \<and> wrap_message echo_credssp ''hello'' ''server''
        = Inr (''multipart/encrypted'', forged_envelope 5 ''hello'')
   \<and> message_chunks echo_credssp ''hello'' = [''hello'']
   \<and> priv_wrap echo_credssp ''hello'' ''server''
        = Inr (CHR 0x10 # CHR 0x00 # CHR 0x00 # CHR 0x00 # ''hello'')
   \<and> \<not> sublist boundary_line (CHR 0x10 # CHR 0x00 # CHR 0x00 # CHR 0x00 # ''hello'')
   \<and> \<not> sublist octet_stream_line (CHR 0x10 # CHR 0x00 # CHR 0x00 # CHR 0x00 # ''hello'')
   \<and> unwrap_message echo_credssp (forged_envelope 5 ''hello'') ''server'' = Inr ''hello''"
proof -
  have p: "protocol echo_credssp = SPNEGO \<or> protocol echo_credssp = CREDSSP"
    by (simp add: echo_credssp_def WinRMEncryption_init_def)
  have c: "contexts echo_credssp ''server'' = Some echo_context"
    by (simp add: echo_credssp_def WinRMEncryption_init_def)
  have w: "wrap_message echo_credssp ''hello'' ''server''
        = Inr (''multipart/encrypted'', forged_envelope 5 ''hello'')"
    by code_simp
  have m: "message_chunks echo_credssp ''hello'' = [''hello'']"
    by (simp add: message_chunks_def SIXTEEN_KB_def)
  have pw: "priv_wrap echo_credssp ''hello'' ''server''
        = Inr (CHR 0x10 # CHR 0x00 # CHR 0x00 # CHR 0x00 # ''hello'')"
    by code_simp
  have s1: "\<not> sublist boundary_line (CHR 0x10 # CHR 0x00 # CHR 0x00 # CHR 0x00 # ''hello'')"
    by code_simp
  have s2: "\<not> sublist octet_stream_line (CHR 0x10 # CHR 0x00 # CHR 0x00 # CHR 0x00 # ''hello'')"
    by code_simp
  have h5: "\<forall>chunk \<in> set (message_chunks echo_credssp ''hello''). \<forall>w.
           priv_wrap echo_credssp chunk ''server'' = Inr w \<longrightarrow>
           \<not> sublist boundary_line w \<and> \<not> sublist octet_stream_line w"
    using s1 s2 by (simp add: m pw)
  have h6: "\<forall>chunk \<in> set (butlast (message_chunks echo_credssp ''hello'')). \<forall>w.
           priv_wrap echo_credssp chunk ''server'' = Inr w \<longrightarrow> \<not> suffix end_block w"
    by (simp add: m)
  from unwrap_wrap_message [OF p c inverse_echo_context w h5 h6]
  have "unwrap_message echo_credssp (forged_envelope 5 ''hello'') ''server'' = Inr ''hello''" .
  with p c inverse_echo_context w m pw s1 s2 show ?thesis by (intro conjI)
qed

text \<open>
  The round trip as the claim states it fails: the context leaves the data as it is, so
  its unwrap undoes its wrap, yet the message that consists of the octet-stream line is
  not returned; its copy in the payload is deleted with the marker and the length check
  fails.
\<close>

theorem unwrap_wrap_message_counterexample:
  "inverse_context echo_context
   \<and> contexts echo_credssp ''server'' = Some echo_context
   \<and> protocol echo_credssp = CREDSSP
   \<and> wrap_message echo_credssp octet_stream_line ''server''
        = Inr (''multipart/encrypted'', forged_envelope 41 octet_stream_line)
   \<and> unwrap_message echo_credssp (forged_envelope 41 octet_stream_line) ''server''
        = Inl (WinRMError (length_mismatch_msg 0 41))
   \<and> unwrap_message echo_credssp (forged_envelope 41 octet_stream_line) ''server''
        \<noteq> Inr octet_stream_line"
proof -
  have c: "contexts echo_credssp ''server'' = Some echo_context"
    by (simp add: echo_credssp_def WinRMEncryption_init_def)
  have p: "protocol echo_credssp = CREDSSP"
    by (simp add: echo_credssp_def WinRMEncryption_init_def)
  have w: "wrap_message echo_credssp octet_stream_line ''server''
        = Inr (''multipart/encrypted'', forged_envelope 41 octet_stream_line)"
    by code_simp
  have u: "unwrap_message echo_credssp (forged_envelope 41 octet_stream_line) ''server''
        = Inl (WinRMError (length_mismatch_msg 0 41))"
    by code_simp
  then have n: "unwrap_message echo_credssp (forged_envelope 41 octet_stream_line) ''server''
        \<noteq> Inr octet_stream_line"
    by simp
  from inverse_echo_context c p w u n show ?thesis by (intro conjI)
qed

text \<open>
  The boundary line in the emitted bytes breaks the round trip in the same way: the split
  ends the payload at it.
\<close>

lemma boundary_line_in_payload_example:
  "wrap_message echo_credssp boundary_line ''server''
     = Inr (''multipart/encrypted'', forged_envelope 22 boundary_line)
   \<and> unwrap_message echo_credssp (forged_envelope 22 boundary_line) ''server''
     = Inl (WinRMError (length_mismatch_msg 0 22))"
  by code_simp

section \<open>The length check and the octet-stream line: theorems\<close>

lemma str_nat_inj: "str_nat a = str_nat b \<Longrightarrow> a = b"
  by (metis digits_val_str_nat)

lemma str_nat_hd_digit: "is_digit (hd (str_nat n))"
proof -
  have "hd (str_nat n) \<in> set (str_nat n)" using str_nat_nonempty [of n] by simp
  with str_nat_digits [of n] show ?thesis by (simp add: list_all_iff)
qed

lemma str_int_inj: "str_int a = str_int b \<Longrightarrow> a = b"
proof -
  assume eq: "str_int a = str_int b"
  have nd: "\<not> is_digit (CHR ''-'')" by (simp add: is_digit_def)
  have pos: "hd (str_int x) \<noteq> CHR ''-''" if "0 \<le> x" for x
    using that str_nat_hd_digit [of "nat x"] nd by (auto simp: str_int_def)
  have neg: "hd (str_int x) = CHR ''-''" if "x < 0" for x
    using that by (simp add: str_int_def)
  show "a = b"
  proof (cases "a < 0")
    case True
    with neg [of a] eq pos [of b] have b: "b < 0" by (cases "b < 0") auto
    with True eq have "str_nat (nat (- a)) = str_nat (nat (- b))" by (simp add: str_int_def)
    then have "nat (- a) = nat (- b)" by (rule str_nat_inj)
    with True b show ?thesis by simp
  next
    case False
    with pos [of a] eq neg [of b] have b: "\<not> b < 0" by (cases "b < 0") auto
    with False eq have "str_nat (nat a) = str_nat (nat b)" by (simp add: str_int_def)
    then have "nat a = nat b" by (rule str_nat_inj)
    with False b show ?thesis by simp
  qed
qed

lemma str_int_no_space: "CHR '' '' \<notin> set (str_int x)"
proof -
  have "\<not> is_digit (CHR '' '')" by (simp add: is_digit_def)
  then have "CHR '' '' \<notin> set (str_nat n)" for n
    using str_nat_digits [of n] by (auto simp: list_all_iff)
  then show ?thesis by (simp add: str_int_def)
qed

lemma first_separator:
  "x \<notin> set xs \<Longrightarrow> x \<notin> set xs' \<Longrightarrow> xs @ x # ys = xs' @ x # ys' \<Longrightarrow> xs = xs' \<and> ys = ys'"
proof (induction xs arbitrary: xs')
  case Nil
  then show ?case by (cases xs') auto
next
  case (Cons a xs)
  show ?case
  proof (cases xs')
    case Nil
    with Cons.prems show ?thesis by auto
  next
    case (Cons b xs'')
    with Cons.prems Cons.IH [of xs''] show ?thesis by auto
  qed
qed

lemma length_mismatch_msg_inj:
  assumes "length_mismatch_msg a e = length_mismatch_msg a' e'"
  shows "a = a' \<and> e = e'"
proof -
  define r where "r = ''!= expected: '' @ str_int e"
  define r' where "r' = ''!= expected: '' @ str_int e'"
  have m: "length_mismatch_msg x y =
      ''The encrypted length from the server does not match the expected length, decryption failed, actual: ''
      @ (str_int x @ CHR '' '' # (''!= expected: '' @ str_int y))" for x y
    by (simp add: length_mismatch_msg_def)
  from assms have "str_int a @ CHR '' '' # r = str_int a' @ CHR '' '' # r'"
    unfolding m r_def r'_def by (rule same_append_eq [THEN iffD1])
  from first_separator [OF str_int_no_space str_int_no_space this]
  have "str_int a = str_int a'" and "r = r'" by simp_all
  from \<open>r = r'\<close> have "str_int e = str_int e'"
    unfolding r_def r'_def by (rule same_append_eq [THEN iffD1])
  with \<open>str_int a = str_int a'\<close> show ?thesis
    using str_int_inj by blast
qed

lemma length_differs_fun: "length_differs = (\<lambda>c. int (length (snd c)) \<noteq> fst c)"
  by (rule ext) (simp add: length_differs_def)

lemma length_mismatch_msg_text:
  "length_mismatch_msg a e =
     ''The encrypted length from the server does not match the expected length, decryption failed, actual: ''
     @ str_int a @ '' != expected: '' @ str_int e"
  by (simp add: length_mismatch_msg_def)

text \<open>
  C4. For an envelope every header and payload pair of which can be read (the header
  declares a length, the mechanism recovers data from the payload), \<open>unwrap_message\<close>
  raises, at the first chunk whose recovered length differs from the declared one, the
  \<open>WinRMError\<close> with the text \<open>The encrypted length from the server does not match the
  expected length, decryption failed, actual: a != expected: e\<close>, where \<open>a\<close> and \<open>e\<close>
  are the recovered and the declared length in decimal. It raises an error if and only if
  the lengths of some chunk differ, and every error it raises is that of such a chunk.
  When the lengths of all chunks agree it returns the recovered data of the chunks,
  concatenated in the order of the headers. The text determines both lengths: two texts
  are equal only if their actual and their expected lengths are.
\<close>

theorem unwrap_message_length_check:
  assumes "recovered_chunks self hostname (envelope_parts message) = Inr cs"
  shows "unwrap_message self message hostname =
           (case find (\<lambda>c. int (length (snd c)) \<noteq> fst c) cs of
              Some c \<Rightarrow>
                Inl (WinRMError
                  (''The encrypted length from the server does not match the expected length, decryption failed, actual: ''
                   @ str_int (int (length (snd c))) @ '' != expected: '' @ str_int (fst c)))
            | None \<Rightarrow> Inr (concat (map snd cs)))
         \<and> ((\<exists>e. unwrap_message self message hostname = Inl e)
              \<longleftrightarrow> (\<exists>c \<in> set cs. int (length (snd c)) \<noteq> fst c))
         \<and> (\<forall>e. unwrap_message self message hostname = Inl e \<longrightarrow>
              (\<exists>c \<in> set cs. int (length (snd c)) \<noteq> fst c
                 \<and> e = WinRMError (length_mismatch_msg (int (length (snd c))) (fst c))))
         \<and> ((\<forall>c \<in> set cs. int (length (snd c)) = fst c) \<longrightarrow>
              unwrap_message self message hostname = Inr (concat (map snd cs)))
         \<and> (\<forall>a e a' e'. length_mismatch_msg a e = length_mismatch_msg a' e' \<longrightarrow> a = a' \<and> e = e')"
proof -
  let ?find = "find (\<lambda>c. int (length (snd c)) \<noteq> fst c) cs"
  have u: "unwrap_message self message hostname =
           (case ?find of
              Some c \<Rightarrow> Inl (WinRMError (length_mismatch_msg (int (length (snd c))) (fst c)))
            | None \<Rightarrow> Inr (concat (map snd cs)))"
    using unwrap_parts_recovered [OF assms, of "[]"]
    by (simp add: unwrap_message_def length_differs_fun split: option.split)
  have inj: "\<forall>a e a' e'. length_mismatch_msg a e = length_mismatch_msg a' e' \<longrightarrow> a = a' \<and> e = e'"
    using length_mismatch_msg_inj by blast
  show ?thesis
  proof (cases ?find)
    case None
    then have all: "\<forall>c \<in> set cs. int (length (snd c)) = fst c"
      by (auto simp: find_None_iff)
    from u None have r: "unwrap_message self message hostname = Inr (concat (map snd cs))"
      by simp
    from all have no: "\<not> (\<exists>c \<in> set cs. int (length (snd c)) \<noteq> fst c)" by simp
    have 1: "unwrap_message self message hostname =
           (case ?find of
              Some c \<Rightarrow>
                Inl (WinRMError
                  (''The encrypted length from the server does not match the expected length, decryption failed, actual: ''
                   @ str_int (int (length (snd c))) @ '' != expected: '' @ str_int (fst c)))
            | None \<Rightarrow> Inr (concat (map snd cs)))"
      by (simp only: None r option.case)
    have 2: "(\<exists>e. unwrap_message self message hostname = Inl e)
              \<longleftrightarrow> (\<exists>c \<in> set cs. int (length (snd c)) \<noteq> fst c)"
      using no by (simp add: r)
    have 3: "\<forall>e. unwrap_message self message hostname = Inl e \<longrightarrow>
              (\<exists>c \<in> set cs. int (length (snd c)) \<noteq> fst c
                 \<and> e = WinRMError (length_mismatch_msg (int (length (snd c))) (fst c)))"
      by (simp add: r)
    have 4: "(\<forall>c \<in> set cs. int (length (snd c)) = fst c) \<longrightarrow>
              unwrap_message self message hostname = Inr (concat (map snd cs))"
      by (simp add: r)
    from 1 2 3 4 inj show ?thesis by (intro conjI)
  next
    case (Some c)
    then have ex: "c \<in> set cs" "int (length (snd c)) \<noteq> fst c"
      by (auto simp: find_Some_iff)
    from u Some have r: "unwrap_message self message hostname =
        Inl (WinRMError (length_mismatch_msg (int (length (snd c))) (fst c)))" by simp
    have 1: "unwrap_message self message hostname =
           (case ?find of
              Some c \<Rightarrow>
                Inl (WinRMError
                  (''The encrypted length from the server does not match the expected length, decryption failed, actual: ''
                   @ str_int (int (length (snd c))) @ '' != expected: '' @ str_int (fst c)))
            | None \<Rightarrow> Inr (concat (map snd cs)))"
      by (simp only: Some r option.case length_mismatch_msg_text)
    have 2: "(\<exists>e. unwrap_message self message hostname = Inl e)
              \<longleftrightarrow> (\<exists>c \<in> set cs. int (length (snd c)) \<noteq> fst c)"
      using ex by (auto simp: r)
    have 3: "\<forall>e. unwrap_message self message hostname = Inl e \<longrightarrow>
              (\<exists>c \<in> set cs. int (length (snd c)) \<noteq> fst c
                 \<and> e = WinRMError (length_mismatch_msg (int (length (snd c))) (fst c)))"
      using ex by (auto simp: r)
    have 4: "(\<forall>c \<in> set cs. int (length (snd c)) = fst c) \<longrightarrow>
              unwrap_message self message hostname = Inr (concat (map snd cs))"
      using ex by blast
    from 1 2 3 4 inj show ?thesis by (intro conjI)
  qed
qed

theorem unwrap_message_length_check_witness:
  "recovered_chunks echo_credssp ''server'' (envelope_parts (forged_envelope 5 ''hello''))
     = Inr [(5, ''hello'')]
   \<and> unwrap_message echo_credssp (forged_envelope 5 ''hello'') ''server'' = Inr ''hello''
   \<and> recovered_chunks echo_credssp ''server'' (envelope_parts (forged_envelope 7 ''hello''))
     = Inr [(7, ''hello'')]
   \<and> unwrap_message echo_credssp (forged_envelope 7 ''hello'') ''server''
     = Inl (WinRMError ''The encrypted length from the server does not match the expected length, decryption failed, actual: 5 != expected: 7'')"
proof -
  have a: "recovered_chunks echo_credssp ''server'' (envelope_parts (forged_envelope 5 ''hello''))
     = Inr [(5, ''hello'')]" by code_simp
  have b: "recovered_chunks echo_credssp ''server'' (envelope_parts (forged_envelope 7 ''hello''))
     = Inr [(7, ''hello'')]" by code_simp
  have s5: "str_int 5 = ''5''" by code_simp
  have s7: "str_int 7 = ''7''" by code_simp
  from unwrap_message_length_check [OF a]
  have c: "unwrap_message echo_credssp (forged_envelope 5 ''hello'') ''server'' = Inr ''hello''"
    by simp
  from unwrap_message_length_check [OF b]
  have d: "unwrap_message echo_credssp (forged_envelope 7 ''hello'') ''server''
     = Inl (WinRMError ''The encrypted length from the server does not match the expected length, decryption failed, actual: 5 != expected: 7'')"
    by (simp add: s5 s7)
  from a b c d show ?thesis by (intro conjI)
qed

lemma replace_join_segments:
  "old \<noteq> [] \<Longrightarrow> \<forall>s \<in> set segs. hd old \<notin> set s \<Longrightarrow>
   replace_scan old [] (join old segs) = concat segs"
proof (induction old segs rule: join.induct)
  case (1 sep)
  then show ?case by simp
next
  case (2 sep x)
  then have "hd sep \<notin> set x" by simp
  from replace_scan_skip [OF "2.prems"(1) this, of "[]" "[]"] show ?case by simp
next
  case (3 sep x y ys)
  note ne = "3.prems"(1)
  from "3.prems"(2) have x: "hd sep \<notin> set x"
    and rest: "\<forall>s \<in> set (y # ys). hd sep \<notin> set s" by simp_all
  have "replace_scan sep [] (join sep (x # y # ys))
          = replace_scan sep [] (x @ sep @ join sep (y # ys))" by simp
  also have "\<dots> = x @ replace_scan sep [] (sep @ join sep (y # ys))"
    by (rule replace_scan_skip [OF ne x])
  also have "\<dots> = x @ replace_scan sep [] (join sep (y # ys))"
    using replace_scan_match [OF ne, of "[]"] by simp
  also have "\<dots> = x @ concat (y # ys)" using "3.IH" [OF ne rest] by simp
  finally show ?case by simp
qed

lemma recover_chunk_last_payload:
  "recover_chunk self hostname part (octet_stream_line @ w @ end_block) =
     (case expected_length_of (strip_bytes part) of
        Inl e \<Rightarrow> Inl e
      | Inr n \<Rightarrow>
          (case priv_unwrap self (replace w octet_stream_line []) hostname of
             Inl e \<Rightarrow> Inl e
           | Inr d \<Rightarrow> Inr (n, d)))"
proof -
  have ne: "octet_stream_line \<noteq> []" by (simp add: octet_stream_line_def)
  have "wrapped_data_of (octet_stream_line @ w @ end_block)
          = replace_scan octet_stream_line [] (octet_stream_line @ w)"
    using wrapped_data_of_last [of "octet_stream_line @ w"] by simp
  also have "\<dots> = replace w octet_stream_line []"
    using replace_scan_match [OF ne, of "[]" w] by (simp add: replace_def)
  finally have wd: "wrapped_data_of (octet_stream_line @ w @ end_block)
                      = replace w octet_stream_line []" .
  show ?thesis
    by (simp add: recover_chunk_def wd Let_def split: sum.split)
qed

lemma unwrap_single_chunk:
  assumes proto: "protocol self = SPNEGO \<or> protocol self = CREDSSP"
    and small: "length message \<le> SIXTEEN_KB"
    and wrapped: "wrap_message self message hostname = Inr (content_type, framed)"
    and w: "priv_wrap self message hostname = Inr w"
    and nb: "\<not> sublist boundary_line w"
  shows "unwrap_message self framed hostname =
     (case priv_unwrap self (replace w octet_stream_line []) hostname of
        Inl e \<Rightarrow> Inl e
      | Inr d \<Rightarrow>
          if int (length d) \<noteq> int (length message)
          then Inl (WinRMError (length_mismatch_msg (int (length d)) (int (length message))))
          else Inr d)"
proof -
  from small have mc: "message_chunks self message = [message]"
    by (simp add: message_chunks_def)
  from wrap_message_frames [OF wrapped] obtain fs where
    fst: "map fst fs = message_chunks self message"
    and wr: "\<forall>cw \<in> set fs. priv_wrap self (fst cw) hostname = Inr (snd cw)"
    and fr: "framed = concat (map (frame (protocol self)) fs) @ end_block"
    by blast
  from fst mc obtain w' where fs: "fs = [(message, w')]" by (cases fs) auto
  with wr w have "w' = w" by simp
  with fs have fs': "fs = [(message, w)]" by simp
  have bl: "\<forall>cw \<in> set fs. \<not> sublist boundary_line (snd cw)" using nb by (simp add: fs')
  have parts: "split_scan boundary_line [] framed = tail_parts (protocol self) [] fs"
    unfolding fr by (rule split_scan_frames [OF proto bl])
  have ep: "envelope_parts framed =
      [header_lines (protocol self) (length message), octet_stream_line @ w @ end_block]"
    by (simp add: envelope_parts_def split_def to_bytes_def boundary_line_def [symmetric]
        parts fs' header_lines_nonempty octet_stream_line_def)
  have rc: "recover_chunk self hostname (header_lines (protocol self) (length message))
              (octet_stream_line @ w @ end_block) =
     (case priv_unwrap self (replace w octet_stream_line []) hostname of
        Inl e \<Rightarrow> Inl e
      | Inr d \<Rightarrow> Inr (int (length message), d))"
    by (simp add: recover_chunk_last_payload expected_length_of_header [OF proto])
  show ?thesis
    by (simp add: unwrap_message_def ep rc Let_def split: sum.split)
qed


text \<open>
  C10. \<open>unwrap_message\<close> removes the octet-stream line with \<open>replace\<close>, which deletes
  every occurrence of the line, wherever it stands: from any number of stretches free of
  tabs that the line joins, the stretches alone remain. One pass of the unwrap loop over
  the payload of a last chunk, the line followed by the bytes \<open>w\<close> and the end block,
  hands the mechanism's unwrap \<open>w\<close> with every occurrence of the line deleted, and so
  does \<open>unwrap_message\<close> on the envelope that \<open>wrap_message\<close> made of a message of
  one chunk for which the wrap step emitted \<open>w\<close>. Whenever \<open>w\<close> contains the line,
  the bytes handed over are shorter than \<open>w\<close> by at least the length of the line, and
  differ from it. The wrap step does emit such bytes: for the context that leaves the data
  as it is and the message that is the line, the mechanism's unwrap of the emitted bytes
  gives the message back, and that of the bytes handed over gives no data.
\<close>

theorem octet_stream_line_removed_everywhere:
  "((\<forall>s \<in> set segs. TAB \<notin> set s) \<longrightarrow>
      replace (join octet_stream_line segs) octet_stream_line [] = concat segs)
   \<and> (sublist octet_stream_line w \<longrightarrow>
      replace w octet_stream_line [] \<noteq> w
      \<and> length (replace w octet_stream_line []) + length octet_stream_line \<le> length w)
   \<and> recover_chunk self hostname part (octet_stream_line @ w @ end_block) =
       (case expected_length_of (strip_bytes part) of
          Inl e \<Rightarrow> Inl e
        | Inr n \<Rightarrow>
            (case priv_unwrap self (replace w octet_stream_line []) hostname of
               Inl e \<Rightarrow> Inl e
             | Inr d \<Rightarrow> Inr (n, d)))
   \<and> ((protocol self = SPNEGO \<or> protocol self = CREDSSP) \<and> length message \<le> SIXTEEN_KB
        \<and> wrap_message self message hostname = Inr (content_type, framed)
        \<and> priv_wrap self message hostname = Inr w \<and> \<not> sublist boundary_line w \<longrightarrow>
      unwrap_message self framed hostname =
        (case priv_unwrap self (replace w octet_stream_line []) hostname of
           Inl e \<Rightarrow> Inl e
         | Inr d \<Rightarrow>
             if int (length d) \<noteq> int (length message)
             then Inl (WinRMError (length_mismatch_msg (int (length d)) (int (length message))))
             else Inr d))
   \<and> priv_wrap echo_credssp octet_stream_line ''server''
       = Inr ([CHR 0x10, CHR 0x00, CHR 0x00, CHR 0x00] @ octet_stream_line)
   \<and> priv_unwrap echo_credssp ([CHR 0x10, CHR 0x00, CHR 0x00, CHR 0x00] @ octet_stream_line) ''server''
       = Inr octet_stream_line
   \<and> priv_unwrap echo_credssp
         (replace ([CHR 0x10, CHR 0x00, CHR 0x00, CHR 0x00] @ octet_stream_line) octet_stream_line [])
         ''server''
       = Inr []"
proof -
  have ne: "octet_stream_line \<noteq> []" and hd: "hd octet_stream_line = TAB"
    by (simp_all add: octet_stream_line_def)
  have 1: "(\<forall>s \<in> set segs. TAB \<notin> set s) \<longrightarrow>
      replace (join octet_stream_line segs) octet_stream_line [] = concat segs"
    using replace_join_segments [OF ne, of segs] by (simp add: hd replace_def)
  have 2: "sublist octet_stream_line w \<longrightarrow>
      replace w octet_stream_line [] \<noteq> w
      \<and> length (replace w octet_stream_line []) + length octet_stream_line \<le> length w"
  proof
    assume s: "sublist octet_stream_line w"
    from replace_scan_shrinks [OF ne s]
    have len: "length (replace w octet_stream_line []) + length octet_stream_line \<le> length w"
      by (simp add: replace_def)
    moreover from ne have "0 < length octet_stream_line" by simp
    ultimately have "length (replace w octet_stream_line []) < length w" by linarith
    then have "replace w octet_stream_line [] \<noteq> w" by auto
    with len show "replace w octet_stream_line [] \<noteq> w
      \<and> length (replace w octet_stream_line []) + length octet_stream_line \<le> length w" by simp
  qed
  note 3 = recover_chunk_last_payload [of self hostname part w]
  have 4: "(protocol self = SPNEGO \<or> protocol self = CREDSSP) \<and> length message \<le> SIXTEEN_KB
        \<and> wrap_message self message hostname = Inr (content_type, framed)
        \<and> priv_wrap self message hostname = Inr w \<and> \<not> sublist boundary_line w \<longrightarrow>
      unwrap_message self framed hostname =
        (case priv_unwrap self (replace w octet_stream_line []) hostname of
           Inl e \<Rightarrow> Inl e
         | Inr d \<Rightarrow>
             if int (length d) \<noteq> int (length message)
             then Inl (WinRMError (length_mismatch_msg (int (length d)) (int (length message))))
             else Inr d)"
    using unwrap_single_chunk [of self message hostname content_type framed w] by blast
  have 5: "priv_wrap echo_credssp octet_stream_line ''server''
       = Inr ([CHR 0x10, CHR 0x00, CHR 0x00, CHR 0x00] @ octet_stream_line)"
    by code_simp
  have 6: "priv_unwrap echo_credssp ([CHR 0x10, CHR 0x00, CHR 0x00, CHR 0x00] @ octet_stream_line) ''server''
       = Inr octet_stream_line"
    by code_simp
  have 7: "priv_unwrap echo_credssp
         (replace ([CHR 0x10, CHR 0x00, CHR 0x00, CHR 0x00] @ octet_stream_line) octet_stream_line [])
         ''server''
       = Inr []"
    by code_simp
  from 1 2 3 4 5 6 7 show ?thesis by (intro conjI)
qed

theorem octet_stream_line_removed_everywhere_witness:
  "replace (join octet_stream_line [''ab'', ''cd'', [], ''ef'']) octet_stream_line [] = ''abcdef''
   \<and> sublist octet_stream_line ([CHR 0x10, CHR 0x00, CHR 0x00, CHR 0x00] @ octet_stream_line)
   \<and> replace ([CHR 0x10, CHR 0x00, CHR 0x00, CHR 0x00] @ octet_stream_line) octet_stream_line []
        \<noteq> [CHR 0x10, CHR 0x00, CHR 0x00, CHR 0x00] @ octet_stream_line
   \<and> protocol echo_credssp = CREDSSP
   \<and> length octet_stream_line \<le> SIXTEEN_KB
   \<and> wrap_message echo_credssp octet_stream_line ''server''
        = Inr (''multipart/encrypted'', forged_envelope 41 octet_stream_line)
   \<and> priv_wrap echo_credssp octet_stream_line ''server''
        = Inr ([CHR 0x10, CHR 0x00, CHR 0x00, CHR 0x00] @ octet_stream_line)
   \<and> \<not> sublist boundary_line ([CHR 0x10, CHR 0x00, CHR 0x00, CHR 0x00] @ octet_stream_line)
   \<and> unwrap_message echo_credssp (forged_envelope 41 octet_stream_line) ''server''
        = Inl (WinRMError (length_mismatch_msg 0 41))"
proof -
  let ?w = "[CHR 0x10, CHR 0x00, CHR 0x00, CHR 0x00] @ octet_stream_line"
  note inst = octet_stream_line_removed_everywhere
    [of "[''ab'', ''cd'', [], ''ef'']" ?w echo_credssp "''server''" "[]" octet_stream_line
        "''multipart/encrypted''" "forged_envelope 41 octet_stream_line"]
  have tabs: "\<forall>s \<in> set [''ab'', ''cd'', [], ''ef'']. TAB \<notin> set s" by (simp add: TAB_def)
  with inst have a: "replace (join octet_stream_line [''ab'', ''cd'', [], ''ef'']) octet_stream_line []
                     = ''abcdef''" by simp
  have s: "sublist octet_stream_line ?w" by (rule sublist_append_leftI)
  with inst have b: "replace ?w octet_stream_line [] \<noteq> ?w" by blast
  have p: "protocol echo_credssp = CREDSSP"
    by (simp add: echo_credssp_def WinRMEncryption_init_def)
  have l: "length octet_stream_line \<le> SIXTEEN_KB"
    by (simp add: octet_stream_line_def SIXTEEN_KB_def CRLF_def)
  have wm: "wrap_message echo_credssp octet_stream_line ''server''
        = Inr (''multipart/encrypted'', forged_envelope 41 octet_stream_line)" by code_simp
  have pw: "priv_wrap echo_credssp octet_stream_line ''server'' = Inr ?w" by code_simp
  have nb: "\<not> sublist boundary_line ?w" by code_simp
  have pu: "priv_unwrap echo_credssp (replace ?w octet_stream_line []) ''server'' = Inr []"
    using inst by blast
  have len: "length octet_stream_line = 41" by (simp add: octet_stream_line_def CRLF_def)
  from inst p l wm pw nb
  have "unwrap_message echo_credssp (forged_envelope 41 octet_stream_line) ''server'' =
        (case priv_unwrap echo_credssp (replace ?w octet_stream_line []) ''server'' of
           Inl e \<Rightarrow> Inl e
         | Inr d \<Rightarrow>
             if int (length d) \<noteq> int (length octet_stream_line)
             then Inl (WinRMError (length_mismatch_msg (int (length d)) (int (length octet_stream_line))))
             else Inr d)"
    by blast
  then have u: "unwrap_message echo_credssp (forged_envelope 41 octet_stream_line) ''server''
        = Inl (WinRMError (length_mismatch_msg 0 41))"
    unfolding pu by (simp add: len)
  from a s b p l wm pw nb u show ?thesis by (intro conjI)
qed

end
